theory Spec2Isabelle
  imports Complex_Main
begin

section \<open>The depthai demo\<close>

text \<open>
  The development embeds the parts of \<^verbatim>\<open>depthai_demo.py\<close> that carry logic of their
  own: the keyboard handling at the end of \<^verbatim>\<open>Demo.loop\<close>, the median-filter cycle set
  up in \<^verbatim>\<open>Demo.run\<close>, the queue reads of the loop, the video-path check at module
  level, the wait for the device in \<^verbatim>\<open>App.stop\<close>, the CSV report of
  \<^verbatim>\<open>Demo._printSysInfo\<close>, the encoder set-up of \<^verbatim>\<open>Demo.setup\<close> and the mirrored
  trackbars of \<^verbatim>\<open>Trackbars.createTrackbar\<close>. Exceptions are values of the type
  \<open>error\<close>; a function that can raise returns \<open>error + 'a\<close>.
\<close>

datatype error = StopIteration | ValueError | RuntimeError | AttributeError | KeyError

subsection \<open>Keys\<close>

text \<open>
  \<^verbatim>\<open>cv2.waitKey(1)\<close> returns an integer (\<open>-1\<close> when no key was pressed); the loop
  compares it with \<^verbatim>\<open>ord(c)\<close>, the code point of a one-character string.
\<close>

definition ord_py :: "char \<Rightarrow> int" where
  "ord_py c = of_char c"

subsection \<open>The camera tuning dictionary\<close>

text \<open>
  \<^verbatim>\<open>self._cameraConfig\<close> has six fixed keys; each value is an integer or \<^verbatim>\<open>None\<close>.
\<close>

record camera_config =
  exposure :: "int option"
  sensitivity :: "int option"
  saturation :: "int option"
  contrast :: "int option"
  brightness :: "int option"
  sharpness :: "int option"

text \<open>
  The \<^verbatim>\<open>if key == ord('t'): ... elif ... else: update = False\<close> chain of
  \<^verbatim>\<open>Demo.loop\<close> (lines 345 to 380). The result is the dictionary after the chain and
  the flag \<^verbatim>\<open>update\<close>.
\<close>

definition camera_key :: "int \<Rightarrow> camera_config \<Rightarrow> camera_config \<times> bool" where
  "camera_key key c =
    (if key = ord_py CHR ''t'' then
       (let c1 = c\<lparr>exposure := (case exposure c of None \<Rightarrow> Some 10000
                     | Some e \<Rightarrow> if e = 1 then Some 500 else Some (min (e + 500) 33000))\<rparr>
        in (if sensitivity c1 = None then c1\<lparr>sensitivity := Some 800\<rparr> else c1), True)
     else if key = ord_py CHR ''g'' then
       (let c1 = c\<lparr>exposure := (case exposure c of None \<Rightarrow> Some 10000
                     | Some e \<Rightarrow> Some (max (e - 500) 1))\<rparr>
        in (if sensitivity c1 = None then c1\<lparr>sensitivity := Some 800\<rparr> else c1), True)
     else if key = ord_py CHR ''y'' then
       (let c1 = c\<lparr>sensitivity := (case sensitivity c of None \<Rightarrow> Some 800
                     | Some s \<Rightarrow> Some (min (s + 50) 1600))\<rparr>
        in (if exposure c1 = None then c1\<lparr>exposure := Some 10000\<rparr> else c1), True)
     else if key = ord_py CHR ''h'' then
       (let c1 = c\<lparr>sensitivity := (case sensitivity c of None \<Rightarrow> Some 800
                     | Some s \<Rightarrow> Some (max (s - 50) 100))\<rparr>
        in (if exposure c1 = None then c1\<lparr>exposure := Some 10000\<rparr> else c1), True)
     else if key = ord_py CHR ''u'' then
       (c\<lparr>saturation := (case saturation c of None \<Rightarrow> Some 0
                     | Some v \<Rightarrow> Some (min (v + 1) 10))\<rparr>, True)
     else if key = ord_py CHR ''j'' then
       (c\<lparr>saturation := (case saturation c of None \<Rightarrow> Some 0
                     | Some v \<Rightarrow> Some (max (v - 1) (- 10)))\<rparr>, True)
     else if key = ord_py CHR ''i'' then
       (c\<lparr>contrast := (case contrast c of None \<Rightarrow> Some 0
                     | Some v \<Rightarrow> Some (min (v + 1) 10))\<rparr>, True)
     else if key = ord_py CHR ''k'' then
       (c\<lparr>contrast := (case contrast c of None \<Rightarrow> Some 0
                     | Some v \<Rightarrow> Some (max (v - 1) (- 10)))\<rparr>, True)
     else if key = ord_py CHR ''o'' then
       (c\<lparr>brightness := (case brightness c of None \<Rightarrow> Some 0
                     | Some v \<Rightarrow> Some (min (v + 1) 10))\<rparr>, True)
     else if key = ord_py CHR ''l'' then
       (c\<lparr>brightness := (case brightness c of None \<Rightarrow> Some 0
                     | Some v \<Rightarrow> Some (max (v - 1) (- 10)))\<rparr>, True)
     else if key = ord_py CHR ''p'' then
       (c\<lparr>sharpness := (case sharpness c of None \<Rightarrow> Some 0
                     | Some v \<Rightarrow> Some (min (v + 1) 4))\<rparr>, True)
     else if key = ord_py CHR '';'' then
       (c\<lparr>sharpness := (case sharpness c of None \<Rightarrow> Some 0
                     | Some v \<Rightarrow> Some (max (v - 1) 0))\<rparr>, True)
     else (c, False))"

subsection \<open>The median-filter cycle\<close>

text \<open>
  \<^verbatim>\<open>itertools.cycle\<close> over a list: the saved items and the index of the item that the
  next call of \<^verbatim>\<open>next\<close> returns. \<^verbatim>\<open>next\<close> on a cycle over the empty list raises
  \<^verbatim>\<open>StopIteration\<close> (the result \<open>None\<close>); otherwise it returns the item and moves on,
  starting over after the last one. The members of \<^verbatim>\<open>dai.MedianFilter\<close> belong to the
  device library, so the list of choices is a parameter and its element type is \<open>'f\<close>.
\<close>

record 'f cycle =
  items :: "'f list"
  pos :: nat

definition cycle :: "'f list \<Rightarrow> 'f cycle" where
  "cycle xs = \<lparr>items = xs, pos = 0\<rparr>"

definition next_cycle :: "'f cycle \<Rightarrow> ('f \<times> 'f cycle) option" where
  "next_cycle c =
    (if items c = [] then None
     else Some (items c ! pos c, c\<lparr>pos := Suc (pos c) mod length (items c)\<rparr>))"

text \<open>
  The start-up scan of \<^verbatim>\<open>Demo.run\<close> (lines 214 to 217): draw items until one equals
  the configured filter, then \<^verbatim>\<open>break\<close>. The first argument bounds the number of
  iterations of the \<^verbatim>\<open>for\<close> loop; \<open>None\<close> says that the loop is still running after
  that many. A \<^verbatim>\<open>for\<close> loop over an exhausted iterator ends normally.
\<close>

fun scan_median :: "nat \<Rightarrow> 'f \<Rightarrow> 'f cycle \<Rightarrow> 'f cycle option" where
  "scan_median 0 target c = None"
| "scan_median (Suc n) target c =
    (case next_cycle c of
       None \<Rightarrow> Some c
     | Some (medFilter, c') \<Rightarrow>
         if medFilter = target then Some c' else scan_median n target c')"

subsection \<open>The state the keyboard acts on\<close>

text \<open>
  \<open>medianFilters\<close> is \<^verbatim>\<open>self._medianFilters\<close>; \<open>depthMedian\<close> is the median filter of
  the depth configuration as last sent by \<^verbatim>\<open>self._pm.updateDepthConfig\<close> (the
  pipeline manager belongs to the device library: its update is modelled as storing the
  value); \<open>cameraConfig\<close> is \<^verbatim>\<open>self._cameraConfig\<close>, which \<^verbatim>\<open>Demo.run\<close> assigns only
  when the camera is used (\<open>None\<close>: the attribute does not exist); \<open>cameraUpdates\<close>
  logs the dictionaries handed to \<^verbatim>\<open>self._updateCameraConfigs\<close>, which forwards them
  to every enabled camera.
\<close>

record 'f demo =
  medianFilters :: "'f cycle"
  depthMedian :: 'f
  cameraConfig :: "camera_config option"
  cameraUpdates :: "camera_config list"

record key_conf =
  displayFrames :: bool
  cameraControlls :: bool

text \<open>
  The camera-control block (lines 344 to 383). The dictionary is read only in the
  branches of the keys that are bound, so a missing attribute raises only there.
\<close>

definition camera_controls :: "int \<Rightarrow> 'f demo \<Rightarrow> error + 'f demo" where
  "camera_controls key st =
    (if key \<in> ord_py ` set ''tgyhujikolp;'' then
       (case cameraConfig st of
          None \<Rightarrow> Inl AttributeError
        | Some c \<Rightarrow>
            (let (c', update) = camera_key key c
             in Inr (st\<lparr>cameraConfig := Some c',
                        cameraUpdates := (if update then cameraUpdates st @ [c']
                                          else cameraUpdates st)\<rparr>)))
     else Inr st)"

text \<open>The keyboard part of \<^verbatim>\<open>Demo.loop\<close> (lines 336 to 383) for the key \<open>key\<close>.\<close>

definition loop_keys :: "key_conf \<Rightarrow> int \<Rightarrow> 'f demo \<Rightarrow> error + 'f demo" where
  "loop_keys conf key st =
    (if displayFrames conf then
       (if key = ord_py CHR ''q'' then Inl StopIteration
        else
          (case (if key = ord_py CHR ''m'' then
                   (case next_cycle (medianFilters st) of
                      None \<Rightarrow> Inl StopIteration
                    | Some (nextFilter, c') \<Rightarrow>
                        Inr (st\<lparr>medianFilters := c', depthMedian := nextFilter\<rparr>))
                 else Inr st) of
             Inl e \<Rightarrow> Inl e
           | Inr st1 \<Rightarrow>
               if cameraControlls conf then camera_controls key st1 else Inr st1))
     else Inr st)"

text \<open>One call of the loop per key; the first exception ends the run.\<close>

fun loop_key_seq :: "key_conf \<Rightarrow> int list \<Rightarrow> 'f demo \<Rightarrow> error + 'f demo" where
  "loop_key_seq conf [] st = Inr st"
| "loop_key_seq conf (key # keys) st =
    (case loop_keys conf key st of
       Inl e \<Rightarrow> Inl e
     | Inr st' \<Rightarrow> loop_key_seq conf keys st')"


subsection \<open>What the claims about the keyboard speak of\<close>

text \<open>
  The bounds, steps and defaults of the six tuning values as the specification words
  them. \<open>adjust\<close> is the move the specification describes: a value of \<^verbatim>\<open>None\<close> becomes
  the default, any other moves by the signed step and is clamped to the bounds.
\<close>

definition in_bounds :: "int \<Rightarrow> int \<Rightarrow> int option \<Rightarrow> bool" where
  "in_bounds lo hi v = (case v of None \<Rightarrow> True | Some x \<Rightarrow> lo \<le> x \<and> x \<le> hi)"

definition config_ok :: "camera_config \<Rightarrow> bool" where
  "config_ok c \<longleftrightarrow>
     in_bounds 1 33000 (exposure c) \<and> in_bounds 100 1600 (sensitivity c) \<and>
     in_bounds (- 10) 10 (saturation c) \<and> in_bounds (- 10) 10 (contrast c) \<and>
     in_bounds (- 10) 10 (brightness c) \<and> in_bounds 0 4 (sharpness c)"

definition adjust :: "int \<Rightarrow> int \<Rightarrow> int \<Rightarrow> int \<Rightarrow> int option \<Rightarrow> int option" where
  "adjust step lo hi dflt v =
    (case v of None \<Rightarrow> Some dflt | Some x \<Rightarrow> Some (max lo (min hi (x + step))))"

text \<open>
  \<open>bound_entry key c\<close> is the entry of the dictionary \<open>c\<close> that \<open>key\<close> is bound to,
  and \<open>claimed_entry key c\<close> the value that the specification gives this entry after
  the key is pressed on \<open>c\<close>. Keys that are not bound give \<open>None\<close>.
\<close>

definition bound_entry :: "int \<Rightarrow> camera_config \<Rightarrow> int option" where
  "bound_entry key c =
    (if key \<in> ord_py ` set ''tg'' then exposure c
     else if key \<in> ord_py ` set ''yh'' then sensitivity c
     else if key \<in> ord_py ` set ''uj'' then saturation c
     else if key \<in> ord_py ` set ''ik'' then contrast c
     else if key \<in> ord_py ` set ''ol'' then brightness c
     else if key \<in> ord_py ` set ''p;'' then sharpness c
     else None)"

definition claimed_entry :: "int \<Rightarrow> camera_config \<Rightarrow> int option" where
  "claimed_entry key c =
    (if key = ord_py CHR ''t'' then adjust 500 1 33000 10000 (exposure c)
     else if key = ord_py CHR ''g'' then adjust (- 500) 1 33000 10000 (exposure c)
     else if key = ord_py CHR ''y'' then adjust 50 100 1600 800 (sensitivity c)
     else if key = ord_py CHR ''h'' then adjust (- 50) 100 1600 800 (sensitivity c)
     else if key = ord_py CHR ''u'' then adjust 1 (- 10) 10 0 (saturation c)
     else if key = ord_py CHR ''j'' then adjust (- 1) (- 10) 10 0 (saturation c)
     else if key = ord_py CHR ''i'' then adjust 1 (- 10) 10 0 (contrast c)
     else if key = ord_py CHR ''k'' then adjust (- 1) (- 10) 10 0 (contrast c)
     else if key = ord_py CHR ''o'' then adjust 1 (- 10) 10 0 (brightness c)
     else if key = ord_py CHR ''l'' then adjust (- 1) (- 10) 10 0 (brightness c)
     else if key = ord_py CHR ''p'' then adjust 1 0 4 0 (sharpness c)
     else if key = ord_py CHR '';'' then adjust (- 1) 0 4 0 (sharpness c)
     else None)"

text \<open>The position of the first occurrence of an item in a list.\<close>

fun first_index :: "'a list \<Rightarrow> 'a \<Rightarrow> nat" where
  "first_index [] y = 0"
| "first_index (x # xs) y = (if x = y then 0 else Suc (first_index xs y))"

section \<open>The configuration\<close>

text \<open>
  The settings of \<^verbatim>\<open>self._conf\<close> and \<^verbatim>\<open>self._conf.args\<close> that the embedded code reads.
  The configuration manager and the argument parser are helpers outside this file; their
  results are inputs here. \<open>'e\<close> is the type of an entry of \<^verbatim>\<open>args.encode\<close>.
\<close>

record 'e config =
  useCamera :: bool
  useNN :: bool
  sync :: bool
  spatialBoundingBox :: bool
  video :: string
  report :: "string list"
  encode :: "'e list"
  encodeOutput :: string

section \<open>The queue reads of the polling loop\<close>

text \<open>
  The output queues that \<^verbatim>\<open>Demo.loop\<close> reads itself: \<^verbatim>\<open>self._sbbOut\<close>,
  \<^verbatim>\<open>self._nnManager.outputQueue\<close>, \<^verbatim>\<open>self._hostOut\<close> and \<^verbatim>\<open>self._logOut\<close>. The
  reads made inside the preview and encoding managers are not part of this file.
  \<^verbatim>\<open>tryGet\<close> and \<^verbatim>\<open>tryGetAll\<close> return at once; \<^verbatim>\<open>get\<close> waits for a message.
\<close>

datatype queue_name = SbbOut | NnOut | HostOut | LogOut

datatype queue_op = TryGet queue_name | TryGetAll queue_name | Get queue_name

fun blocking :: "queue_op \<Rightarrow> bool" where
  "blocking (Get q) = True"
| "blocking (TryGet q) = False"
| "blocking (TryGetAll q) = False"

text \<open>
  What one iteration meets: whether \<^verbatim>\<open>self._cap.read()\<close> delivered a frame and whether
  \<^verbatim>\<open>tryGet\<close> on the network's queue returned a message.
\<close>

record loop_env =
  readCorrectly :: bool
  inNn :: bool

text \<open>
  The queue operations of one call of \<^verbatim>\<open>Demo.loop\<close> (lines 278 to 334), in order, and
  the exception that ends the call early, if any. \<^verbatim>\<open>self._sbbOut\<close> and
  \<^verbatim>\<open>self._logOut\<close> are set by \<^verbatim>\<open>Demo.run\<close> (lines 210 and 211); \<^verbatim>\<open>self._nnManager\<close>
  is assigned by \<^verbatim>\<open>Demo.setup\<close> only when a network is used.
\<close>

definition sbbOut_set :: "'e config \<Rightarrow> bool" where
  "sbbOut_set conf \<longleftrightarrow> useNN conf \<and> spatialBoundingBox conf"

definition logOut_set :: "'e config \<Rightarrow> bool" where
  "logOut_set conf \<longleftrightarrow> length (report conf) > 0"

definition loop_reads :: "'e config \<Rightarrow> loop_env \<Rightarrow> queue_op list \<times> error option" where
  "loop_reads conf env =
    (if \<not> useCamera conf \<and> \<not> readCorrectly env then ([], Some StopIteration)
     else if \<not> useCamera conf \<and> \<not> useNN conf then ([], Some AttributeError)
     else
       ((if useCamera conf \<and> sbbOut_set conf then [TryGet SbbOut] else []) @
        (if useNN conf then
           TryGet NnOut #
           (if inNn env \<and> \<not> useCamera conf \<and> sync conf then [Get HostOut] else [])
         else []) @
        (if logOut_set conf then [TryGetAll LogOut] else []),
        None))"

section \<open>The video path check at start-up\<close>

text \<open>\<^verbatim>\<open>s.startswith(p)\<close>.\<close>

definition startswith :: "string \<Rightarrow> string \<Rightarrow> bool" where
  "startswith s p \<longleftrightarrow> take (length p) s = p"

text \<open>
  The module-level check (lines 28 to 33). \<open>downloadYTVideo\<close> stands for the helper
  that fetches a video and returns its local path, \<open>exists\<close> for
  \<^verbatim>\<open>Path(p).exists()\<close> on the file system at hand.
\<close>

definition video_check ::
  "(string \<Rightarrow> string) \<Rightarrow> (string \<Rightarrow> bool) \<Rightarrow> 'e config \<Rightarrow> error + 'e config" where
  "video_check downloadYTVideo exists conf =
    (if \<not> useCamera conf then
       (let conf1 = (if startswith (video conf) ''https''
                     then conf\<lparr>video := downloadYTVideo (video conf)\<rparr> else conf)
        in if \<not> exists (video conf1) then Inl ValueError else Inr conf1)
     else Inr conf)"

text \<open>
  The module runs top to bottom: the check comes before \<^verbatim>\<open>App().start()\<close>, whose worker
  calls \<^verbatim>\<open>Demo.setup\<close>, where the pipeline manager (line 114) and the device (line 133)
  are created. \<open>startup\<close> gives the outcome of the check and the objects created, in
  order.
\<close>

datatype created = PipelineManager | Device

definition startup ::
  "(string \<Rightarrow> string) \<Rightarrow> (string \<Rightarrow> bool) \<Rightarrow> 'e config \<Rightarrow> (error + 'e config) \<times> created list" where
  "startup downloadYTVideo exists conf =
    (case video_check downloadYTVideo exists conf of
       Inl e \<Rightarrow> (Inl e, [])
     | Inr conf' \<Rightarrow> (Inr conf', [PipelineManager, Device]))"

section \<open>Waiting for the device in \<^verbatim>\<open>App.stop\<close>\<close>

text \<open>
  The \<^verbatim>\<open>while ... else\<close> loop of \<^verbatim>\<open>App.stop\<close> (lines 582 to 587). \<open>clock n\<close> is the
  result of the \<open>n\<close>-th call of \<^verbatim>\<open>time.time()\<close> (the call that sets \<^verbatim>\<open>start\<close> is call
  \<open>0\<close>) and \<open>devices n\<close> the MxIds of the \<open>n\<close>-th call of
  \<^verbatim>\<open>dai.Device.getAllAvailableDevices()\<close>; iteration \<open>n\<close> of the loop makes the
  \<open>n\<close>-th call of each. The result \<open>None\<close> says that the loop runs forever.
\<close>

partial_function (option) wait_available ::
  "'i \<Rightarrow> real \<Rightarrow> (nat \<Rightarrow> real) \<Rightarrow> (nat \<Rightarrow> 'i list) \<Rightarrow> nat \<Rightarrow> (error + unit) option" where
  "wait_available current_mxid start clock devices n =
    (if clock n - start < 10 then
       (if current_mxid \<in> set (devices n) then Some (Inr ())
        else wait_available current_mxid start clock devices (Suc n))
     else Some (Inl RuntimeError))"

definition stop :: "'i \<Rightarrow> (nat \<Rightarrow> real) \<Rightarrow> (nat \<Rightarrow> 'i list) \<Rightarrow> (error + unit) option" where
  "stop current_mxid clock devices = wait_available current_mxid (clock 0) clock devices 1"


section \<open>Dictionaries\<close>

text \<open>
  A Python dictionary keeps its keys in insertion order: an association list with one
  pair per key. \<open>dict_set d k v\<close> is \<^verbatim>\<open>d[k] = v\<close>: the value of a key already there is
  replaced in place, a new key goes to the end. \<open>dict_extend d kvs\<close> is
  \<^verbatim>\<open>{**d, k1: v1, ...}\<close>.
\<close>

fun dict_set :: "('k \<times> 'v) list \<Rightarrow> 'k \<Rightarrow> 'v \<Rightarrow> ('k \<times> 'v) list" where
  "dict_set [] k v = [(k, v)]"
| "dict_set ((k', v') # d) k v =
    (if k' = k then (k, v) # d else (k', v') # dict_set d k v)"

definition dict_extend :: "('k \<times> 'v) list \<Rightarrow> ('k \<times> 'v) list \<Rightarrow> ('k \<times> 'v) list" where
  "dict_extend d kvs = foldl (\<lambda>d' (k, v). dict_set d' k v) d kvs"

section \<open>The CSV report\<close>

text \<open>
  The system information message of the device. The memory figures are integers; the
  temperatures and the processor loads are floating-point numbers, of a type \<open>'r\<close> left
  open here, since the report only prints them. A field \<open>a_b\<close> is \<^verbatim>\<open>info.a.b\<close>.
\<close>

record 'r sys_info =
  ddrMemoryUsage_used :: int
  ddrMemoryUsage_total :: int
  cmxMemoryUsage_used :: int
  cmxMemoryUsage_total :: int
  leonCssMemoryUsage_used :: int
  leonCssMemoryUsage_total :: int
  leonMssMemoryUsage_used :: int
  leonMssMemoryUsage_total :: int
  chipTemperature_average :: 'r
  chipTemperature_css :: 'r
  chipTemperature_mss :: 'r
  chipTemperature_upa :: 'r
  chipTemperature_dss :: 'r
  leonCssCpuUsage_average :: 'r
  leonMssCpuUsage_average :: 'r

datatype 'r val = IntV int | FloatV 'r

text \<open>The dictionary \<^verbatim>\<open>data\<close> of \<^verbatim>\<open>Demo._printSysInfo\<close> (lines 455 to 482).\<close>

definition report_data :: "string list \<Rightarrow> 'r sys_info \<Rightarrow> (string \<times> 'r val) list" where
  "report_data rep info =
    (let data = [];
         data = (if ''memory'' \<in> set rep then
                   dict_extend data
                     [(''ddrUsed'', IntV (ddrMemoryUsage_used info)),
                      (''ddrTotal'', IntV (ddrMemoryUsage_total info)),
                      (''cmxUsed'', IntV (cmxMemoryUsage_used info)),
                      (''cmxTotal'', IntV (cmxMemoryUsage_total info)),
                      (''leonCssUsed'', IntV (leonCssMemoryUsage_used info)),
                      (''leonCssTotal'', IntV (leonCssMemoryUsage_total info)),
                      (''leonMssUsed'', IntV (leonMssMemoryUsage_used info)),
                      (''leonMssTotal'', IntV (leonMssMemoryUsage_total info))]
                 else data);
         data = (if ''temp'' \<in> set rep then
                   dict_extend data
                     [(''tempAvg'', FloatV (chipTemperature_average info)),
                      (''tempCss'', FloatV (chipTemperature_css info)),
                      (''tempMss'', FloatV (chipTemperature_mss info)),
                      (''tempUpa0'', FloatV (chipTemperature_upa info)),
                      (''tempUpa1'', FloatV (chipTemperature_dss info))]
                 else data);
         data = (if ''cpu'' \<in> set rep then
                   dict_extend data
                     [(''cpuCssAvg'', FloatV (leonCssCpuUsage_average info)),
                      (''cpuMssAvg'', FloatV (leonMssCpuUsage_average info))]
                 else data)
     in data)"

text \<open>\<^verbatim>\<open>sep.join(xs)\<close>.\<close>

fun join :: "string \<Rightarrow> string list \<Rightarrow> string" where
  "join sep [] = []"
| "join sep [x] = x"
| "join sep (x # y # ys) = x @ sep @ join sep (y # ys)"

text \<open>
  The report file is opened for appending, so its position is its length, and
  \<^verbatim>\<open>print(s, file=f)\<close> adds \<open>s\<close> and a newline at the end. The file is its content.
\<close>

definition print_to :: "string \<Rightarrow> string \<Rightarrow> string" where
  "print_to s f = f @ s @ [CHR 0x0A]"

definition tell :: "string \<Rightarrow> nat" where
  "tell f = length f"

text \<open>
  The branch of \<^verbatim>\<open>Demo._printSysInfo\<close> that writes the report file (lines 454 to 487).
  \<open>str\<close> is Python's \<^verbatim>\<open>str\<close> on the values; \<open>onReport\<close> is the callback, which is
  handed the dictionary itself and so may change it: it maps the dictionary to what it
  leaves there. The other branch prints rounded figures to the console.
\<close>

definition printSysInfo ::
  "('r val \<Rightarrow> string) \<Rightarrow> ((string \<times> 'r val) list \<Rightarrow> (string \<times> 'r val) list) \<Rightarrow>
   string list \<Rightarrow> 'r sys_info \<Rightarrow> string \<Rightarrow> string" where
  "printSysInfo str onReport rep info reportFile =
    (let data = report_data rep info;
         reportFile = (if tell reportFile = 0
                       then print_to (join '','' (map fst data)) reportFile
                       else reportFile);
         data = onReport data
     in print_to (join '','' (map (str \<circ> snd) data)) reportFile)"

text \<open>The loop over the messages of the system logger (lines 332 to 334).\<close>

fun print_logs ::
  "('r val \<Rightarrow> string) \<Rightarrow> ((string \<times> 'r val) list \<Rightarrow> (string \<times> 'r val) list) \<Rightarrow>
   string list \<Rightarrow> 'r sys_info list \<Rightarrow> string \<Rightarrow> string" where
  "print_logs str onReport rep [] reportFile = reportFile"
| "print_logs str onReport rep (info # logs) reportFile =
    print_logs str onReport rep logs (printSysInfo str onReport rep info reportFile)"

text \<open>
  \<^verbatim>\<open>Path(p).with_suffix(s)\<close> of the standard library, on the last component of the
  path: the suffix of a name starts at its last dot, unless that dot is the first or the
  last character; a path with an empty name raises \<^verbatim>\<open>ValueError\<close>.
\<close>

definition rfind :: "char \<Rightarrow> string \<Rightarrow> nat option" where
  "rfind ch s =
    (if ch \<in> set s then Some (length s - Suc (length (takeWhile (\<lambda>x. x \<noteq> ch) (rev s))))
     else None)"

definition path_suffix :: "string \<Rightarrow> string" where
  "path_suffix name =
    (case rfind CHR ''.'' name of
       None \<Rightarrow> []
     | Some i \<Rightarrow> if 0 < i \<and> i < length name - 1 then drop i name else [])"

definition with_suffix :: "string \<Rightarrow> string \<Rightarrow> error + string" where
  "with_suffix name suffix =
    (if name = [] then Inl ValueError
     else (let old_suffix = path_suffix name
           in if old_suffix = [] then Inr (name @ suffix)
              else Inr (take (length name - length old_suffix) name @ suffix)))"

section \<open>The encoders in \<^verbatim>\<open>Demo.setup\<close>\<close>

text \<open>
  The attribute \<^verbatim>\<open>self._encManager\<close>: not assigned, \<^verbatim>\<open>None\<close>, or an encoding manager
  made from \<^verbatim>\<open>args.encode\<close> and \<^verbatim>\<open>args.encodeOutput\<close>.
\<close>

datatype 'e enc_attr = Unassigned | NoneValue | EncodingManager "'e list" string

text \<open>
  Lines 145 and 181 to 184 of \<^verbatim>\<open>Demo.setup\<close>: the attribute before the call gives the
  attribute after it and the encoders that \<^verbatim>\<open>createEncoders\<close> adds to the fresh pipeline
  (the encoding manager belongs to the device library: it adds one encoder per entry).
\<close>

definition setup_encoding :: "'e config \<Rightarrow> 'e enc_attr \<Rightarrow> 'e enc_attr \<times> 'e list" where
  "setup_encoding conf encManager =
    (if useCamera conf \<or> sync conf then
       (if length (encode conf) > 1
        then (EncodingManager (encode conf) (encodeOutput conf), encode conf)
        else (NoneValue, []))
     else (encManager, []))"

section \<open>Mirrored trackbars\<close>

text \<open>
  \<open>instances\<close> is \<^verbatim>\<open>Trackbars.instances\<close>, a dictionary from trackbar names to
  dictionaries from window names to values. \<open>positions\<close> holds the slider positions that
  the window library shows, by trackbar and window. \<open>calls\<close> logs the calls of the user
  callbacks: the trackbar and window whose callback it is, and the value handed over.
\<close>

record trackbars =
  instances :: "(string \<times> (string \<times> int) list) list"
  positions :: "string \<times> string \<Rightarrow> int option"
  calls :: "(string \<times> string \<times> int) list"

text \<open>
  \<^verbatim>\<open>cv2.setTrackbarPos\<close>. Setting a position may make the window library call the
  handler of that trackbar before it returns: \<open>fires old new\<close> says whether it does,
  given the position before and the new one, and is a parameter, as is the handler.
\<close>

type_synonym handler = "string \<Rightarrow> string \<Rightarrow> int \<Rightarrow> trackbars \<Rightarrow> (error + trackbars) option"

definition setTrackbarPos ::
  "handler \<Rightarrow> (int option \<Rightarrow> int \<Rightarrow> bool) \<Rightarrow> string \<Rightarrow> string \<Rightarrow> int \<Rightarrow> trackbars \<Rightarrow>
   (error + trackbars) option" where
  "setTrackbarPos handler fires name window value st =
    (let st' = st\<lparr>positions := (positions st)((name, window) \<mapsto> value)\<rparr>
     in if fires (positions st (name, window)) value
        then handler name window value st' else Some (Inr st'))"

text \<open>
  The \<^verbatim>\<open>for\<close> loop of the handler (lines 44 to 47) over the windows still to visit;
  the loop reads each value when it reaches it.
\<close>

fun mirror ::
  "handler \<Rightarrow> (int option \<Rightarrow> int \<Rightarrow> bool) \<Rightarrow> string \<Rightarrow> string \<Rightarrow> int \<Rightarrow> string list \<Rightarrow>
   trackbars \<Rightarrow> (error + trackbars) option" where
  "mirror handler fires name window value [] st = Some (Inr st)"
| "mirror handler fires name window value (otherWindow # rest) st =
    (case map_of (instances st) name of
       None \<Rightarrow> Some (Inl KeyError)
     | Some d \<Rightarrow>
        (case map_of d otherWindow of
           None \<Rightarrow> Some (Inl KeyError)
         | Some previousValue \<Rightarrow>
             if otherWindow \<noteq> window \<and> previousValue \<noteq> value then
               (case setTrackbarPos handler fires name otherWindow value
                       (st\<lparr>instances :=
                             dict_set (instances st) name (dict_set d otherWindow value)\<rparr>) of
                  None \<Rightarrow> None
                | Some (Inl e) \<Rightarrow> Some (Inl e)
                | Some (Inr st') \<Rightarrow> mirror handler fires name window value rest st')
             else mirror handler fires name window value rest st))"

text \<open>
  The handler \<^verbatim>\<open>fn\<close> that \<^verbatim>\<open>Trackbars.createTrackbar\<close> registers for the trackbar
  \<open>name\<close> of \<open>window\<close> (lines 41 to 47). The first argument bounds the depth of
  handlers calling handlers through \<^verbatim>\<open>cv2.setTrackbarPos\<close>; \<open>None\<close> says that the
  bound was reached.
\<close>

primrec fn :: "nat \<Rightarrow> (int option \<Rightarrow> int \<Rightarrow> bool) \<Rightarrow> handler" where
  "fn 0 fires = (\<lambda>name window value st. None)"
| "fn (Suc n) fires = (\<lambda>name window value st.
    (case map_of (instances st) name of
       None \<Rightarrow> Some (Inl KeyError)
     | Some d \<Rightarrow>
        (case map_of d window of
           None \<Rightarrow> Some (Inl KeyError)
         | Some stored \<Rightarrow>
             mirror (fn n fires) fires name window value (map fst d)
               (if stored \<noteq> value then st\<lparr>calls := calls st @ [(name, window, value)]\<rparr>
                else st))))"

text \<open>
  \<^verbatim>\<open>Trackbars.createTrackbar\<close> (lines 49 to 51). \<^verbatim>\<open>cv2.createTrackbar\<close> takes the
  third argument as the first position of the slider.
\<close>

definition createTrackbar ::
  "nat \<Rightarrow> (int option \<Rightarrow> int \<Rightarrow> bool) \<Rightarrow> string \<Rightarrow> string \<Rightarrow> int \<Rightarrow> int \<Rightarrow> int \<Rightarrow> trackbars \<Rightarrow>
   (error + trackbars) option" where
  "createTrackbar n fires name window minVal maxVal defaultVal st =
    (let st1 = st\<lparr>positions := (positions st)((name, window) \<mapsto> minVal)\<rparr>;
         st2 = st1\<lparr>instances :=
                 dict_set (instances st1) name
                   (dict_set (case map_of (instances st1) name of None \<Rightarrow> [] | Some d \<Rightarrow> d)
                      window defaultVal)\<rparr>
     in setTrackbarPos (fn n fires) fires name window defaultVal st2)"

text \<open>
  A change event: the user moves the slider of \<open>window\<close> to \<open>value\<close> and the window
  library calls the handler with it.
\<close>

definition change_event ::
  "nat \<Rightarrow> (int option \<Rightarrow> int \<Rightarrow> bool) \<Rightarrow> string \<Rightarrow> string \<Rightarrow> int \<Rightarrow> trackbars \<Rightarrow>
   (error + trackbars) option" where
  "change_event n fires name window value st =
    fn n fires name window value (st\<lparr>positions := (positions st)((name, window) \<mapsto> value)\<rparr>)"

text \<open>The value stored for a window under a trackbar name.\<close>

definition stored_value :: "trackbars \<Rightarrow> string \<Rightarrow> string \<Rightarrow> int option" where
  "stored_value st name window =
    (case map_of (instances st) name of None \<Rightarrow> None | Some d \<Rightarrow> map_of d window)"

definition windows_of :: "trackbars \<Rightarrow> string \<Rightarrow> string list" where
  "windows_of st name =
    (case map_of (instances st) name of None \<Rightarrow> [] | Some d \<Rightarrow> map fst d)"


text \<open>
  Two notions for reasoning about a handler that runs for \<open>value\<close>: the windows of a
  trackbar whose stored value is not yet \<open>value\<close>, and what a run may have changed
  between two states: the windows stay, and for each window either the stored value and
  the position shown stay, or both become \<open>value\<close>.
\<close>

definition pending :: "string \<Rightarrow> int \<Rightarrow> trackbars \<Rightarrow> string set" where
  "pending name value st =
    {w \<in> set (windows_of st name). stored_value st name w \<noteq> Some value}"

definition moved_to :: "string \<Rightarrow> int \<Rightarrow> trackbars \<Rightarrow> trackbars \<Rightarrow> bool" where
  "moved_to name value st st' \<longleftrightarrow>
     windows_of st' name = windows_of st name \<and>
     (\<forall>w. (stored_value st' name w = stored_value st name w \<and>
           positions st' (name, w) = positions st (name, w)) \<or>
          (stored_value st' name w = Some value \<and> positions st' (name, w) = Some value))"

section \<open>What the claim about the report speaks of\<close>

text \<open>
  The columns of the three report groups, in the order of the specification: eight for
  the memory, five for the temperatures, two for the processors. \<open>report_columns\<close> and
  \<open>report_values\<close> put the groups that are asked for one after the other.
\<close>

definition memory_columns :: "string list" where
  "memory_columns = [''ddrUsed'', ''ddrTotal'', ''cmxUsed'', ''cmxTotal'', ''leonCssUsed'',
     ''leonCssTotal'', ''leonMssUsed'', ''leonMssTotal'']"

definition temp_columns :: "string list" where
  "temp_columns = [''tempAvg'', ''tempCss'', ''tempMss'', ''tempUpa0'', ''tempUpa1'']"

definition cpu_columns :: "string list" where
  "cpu_columns = [''cpuCssAvg'', ''cpuMssAvg'']"

definition report_columns :: "string list \<Rightarrow> string list" where
  "report_columns rep =
    (if ''memory'' \<in> set rep then memory_columns else []) @
    (if ''temp'' \<in> set rep then temp_columns else []) @
    (if ''cpu'' \<in> set rep then cpu_columns else [])"

definition report_values :: "string list \<Rightarrow> 'r sys_info \<Rightarrow> 'r val list" where
  "report_values rep info =
    (if ''memory'' \<in> set rep then
       [IntV (ddrMemoryUsage_used info), IntV (ddrMemoryUsage_total info),
        IntV (cmxMemoryUsage_used info), IntV (cmxMemoryUsage_total info),
        IntV (leonCssMemoryUsage_used info), IntV (leonCssMemoryUsage_total info),
        IntV (leonMssMemoryUsage_used info), IntV (leonMssMemoryUsage_total info)]
     else []) @
    (if ''temp'' \<in> set rep then
       [FloatV (chipTemperature_average info), FloatV (chipTemperature_css info),
        FloatV (chipTemperature_mss info), FloatV (chipTemperature_upa info),
        FloatV (chipTemperature_dss info)]
     else []) @
    (if ''cpu'' \<in> set rep then
       [FloatV (leonCssCpuUsage_average info), FloatV (leonMssCpuUsage_average info)]
     else [])"

section \<open>Properties of the camera controls\<close>

lemma key_cases:
  assumes "key \<in> ord_py ` set ''tgyhujikolp;''"
  obtains "key = ord_py CHR ''t''" | "key = ord_py CHR ''g''" | "key = ord_py CHR ''y''"
    | "key = ord_py CHR ''h''" | "key = ord_py CHR ''u''" | "key = ord_py CHR ''j''"
    | "key = ord_py CHR ''i''" | "key = ord_py CHR ''k''" | "key = ord_py CHR ''o''"
    | "key = ord_py CHR ''l''" | "key = ord_py CHR ''p''" | "key = ord_py CHR '';''"
  using assms by auto

lemma camera_key_other:
  "key \<notin> ord_py ` set ''tgyhujikolp;'' \<Longrightarrow> camera_key key c = (c, False)"
  by (simp add: camera_key_def)

lemmas key_unfold = camera_key_def ord_py_def Let_def

lemma camera_key_ok:
  assumes ok: "config_ok c"
  shows "config_ok (fst (camera_key key c))"
proof (cases "key \<in> ord_py ` set ''tgyhujikolp;''")
  case False
  with ok show ?thesis by (simp add: camera_key_other)
next
  case True
  then show ?thesis
    by (cases rule: key_cases)
       (use ok in \<open>simp_all add: key_unfold config_ok_def in_bounds_def split: option.splits\<close>)
qed

lemma camera_key_update:
  "key \<in> ord_py ` set ''tgyhujikolp;'' \<Longrightarrow> snd (camera_key key c)"
  by (erule key_cases) (simp_all add: key_unfold)

lemma camera_controls_ok:
  assumes "cameraConfig st = Some c" "config_ok c"
  shows "\<exists>st' c'. camera_controls key st = Inr st' \<and> cameraConfig st' = Some c' \<and> config_ok c'
     \<and> medianFilters st' = medianFilters st \<and> depthMedian st' = depthMedian st
     \<and> c' = (if key \<in> ord_py ` set ''tgyhujikolp;'' then fst (camera_key key c) else c)"
  using assms camera_key_ok[OF assms(2), of key]
  by (auto simp: camera_controls_def split: prod.splits)

lemma loop_keys_camera:
  assumes "cameraConfig st = Some c" "config_ok c" "key \<in> ord_py ` set ''tgyhujikolp;''"
  shows "\<exists>st' c'. loop_keys conf key st = Inr st' \<and> cameraConfig st' = Some c' \<and> config_ok c'"
proof -
  have nq: "key \<noteq> ord_py CHR ''q''" "key \<noteq> ord_py CHR ''m''"
    using assms(3) by (auto simp: ord_py_def)
  show ?thesis
    using camera_controls_ok[OF assms(1,2), of key] assms(1,2) nq
    by (auto simp: loop_keys_def)
qed

lemma loop_key_seq_camera:
  assumes "set keys \<subseteq> ord_py ` set ''tgyhujikolp;''" "cameraConfig st = Some c" "config_ok c"
  shows "\<exists>st' c'. loop_key_seq conf keys st = Inr st' \<and> cameraConfig st' = Some c' \<and> config_ok c'"
  using assms
proof (induction keys arbitrary: st c)
  case Nil
  then show ?case by simp
next
  case (Cons key keys)
  from Cons.prems have k: "key \<in> ord_py ` set ''tgyhujikolp;''" by simp
  from loop_keys_camera[OF Cons.prems(2,3) k, of conf]
  obtain st1 c1 where s1: "loop_keys conf key st = Inr st1" "cameraConfig st1 = Some c1" "config_ok c1"
    by blast
  from Cons.prems have "set keys \<subseteq> ord_py ` set ''tgyhujikolp;''" by simp
  from Cons.IH[OF this s1(2,3)] s1(1) show ?case by simp
qed

lemma claimed_ok:
  assumes ok: "config_ok c" and k: "key \<in> ord_py ` set ''tgyhujikolp;''"
  shows "bound_entry key (fst (camera_key key c)) =
      (if key = ord_py CHR ''t'' \<and> exposure c = Some 1 then Some 500 else claimed_entry key c)"
  using k
  by (cases rule: key_cases)
     (use ok in \<open>auto simp: key_unfold config_ok_def in_bounds_def bound_entry_def claimed_entry_def
        adjust_def split: option.splits\<close>)

lemma loop_key_seq_fold:
  assumes "set keys \<subseteq> ord_py ` set ''tgyhujikolp;''" "cameraConfig st = Some c"
    "displayFrames conf" "cameraControlls conf"
  shows "\<exists>st'. loop_key_seq conf keys st = Inr st' \<and>
     cameraConfig st' = Some (foldl (\<lambda>c k. fst (camera_key k c)) c keys)"
  using assms(1,2)
proof (induction keys arbitrary: st c)
  case Nil
  then show ?case by simp
next
  case (Cons key keys)
  from Cons.prems have k: "key \<in> ord_py ` set ''tgyhujikolp;''" by simp
  then have nq: "key \<noteq> ord_py CHR ''q''" "key \<noteq> ord_py CHR ''m''"
    by (auto simp: ord_py_def)
  have "\<exists>st1. loop_keys conf key st = Inr st1 \<and>
      cameraConfig st1 = Some (fst (camera_key key c))"
    using Cons.prems(2) k nq assms(3,4)
    by (simp add: loop_keys_def camera_controls_def case_prod_beta del: set_simps image_insert)
  then obtain st1 where s1: "loop_keys conf key st = Inr st1"
    "cameraConfig st1 = Some (fst (camera_key key c))" by blast
  from Cons.prems have "set keys \<subseteq> ord_py ` set ''tgyhujikolp;''" by simp
  from Cons.IH[OF this s1(2)] s1(1) show ?case by simp
qed

text \<open>
  Claim C2, as amended. Let the tuning dictionary hold, for each entry, \<^verbatim>\<open>None\<close> or a
  value within its bounds (exposure 1 to 33000, sensitivity 100 to 1600, saturation,
  contrast and brightness -10 to 10, sharpness 0 to 4). Then every sequence of
  camera-control keys is processed without an exception and leaves such a dictionary,
  which, when frames are displayed and the controls are enabled, is the result of
  applying the keys one after the other. Each key gives its entry the default on
  \<^verbatim>\<open>None\<close> (10000, 800, 0) and otherwise moves it by its step (500, 50, 1), clamped
  to the bounds, with one exception: the key \<^verbatim>\<open>t\<close> on an exposure of 1 sets 500.
\<close>

theorem camera_controls_bounded:
  assumes "config_ok c" and "cameraConfig st = Some c"
    and "set keys \<subseteq> ord_py ` set ''tgyhujikolp;''"
  shows "(\<exists>st' c'. loop_key_seq conf keys st = Inr st' \<and> cameraConfig st' = Some c' \<and>
            config_ok c' \<and>
            (displayFrames conf \<and> cameraControlls conf \<longrightarrow>
               c' = foldl (\<lambda>c k. fst (camera_key k c)) c keys)) \<and>
         (\<forall>key \<in> ord_py ` set ''tgyhujikolp;''.
            bound_entry key (fst (camera_key key c)) =
              (if key = ord_py CHR ''t'' \<and> exposure c = Some 1 then Some 500
               else claimed_entry key c))"
proof -
  obtain st' c' where r: "loop_key_seq conf keys st = Inr st'" "cameraConfig st' = Some c'"
      "config_ok c'"
    using loop_key_seq_camera[OF assms(3,2,1), of conf] by blast
  have "c' = foldl (\<lambda>c k. fst (camera_key k c)) c keys"
    if "displayFrames conf" "cameraControlls conf"
    using loop_key_seq_fold[OF assms(3,2) that] r by simp
  with r have "\<exists>st' c'. loop_key_seq conf keys st = Inr st' \<and> cameraConfig st' = Some c' \<and>
            config_ok c' \<and>
            (displayFrames conf \<and> cameraControlls conf \<longrightarrow>
               c' = foldl (\<lambda>c k. fst (camera_key k c)) c keys)"
    by blast
  moreover have "\<forall>key \<in> ord_py ` set ''tgyhujikolp;''.
            bound_entry key (fst (camera_key key c)) =
              (if key = ord_py CHR ''t'' \<and> exposure c = Some 1 then Some 500
               else claimed_entry key c)"
    using claimed_ok[OF assms(1)] by blast
  ultimately show ?thesis by blast
qed

theorem camera_controls_bounded_witness:
  "config_ok \<lparr>exposure = Some 1, sensitivity = None, saturation = Some 10, contrast = None,
       brightness = None, sharpness = Some 0\<rparr> \<and>
   (\<exists>st' c'. loop_key_seq \<lparr>displayFrames = True, cameraControlls = True\<rparr>
        [ord_py CHR ''t'', ord_py CHR ''u'', ord_py CHR '';'']
        \<lparr>medianFilters = cycle [0::nat], depthMedian = 0,
          cameraConfig = Some \<lparr>exposure = Some 1, sensitivity = None, saturation = Some 10,
            contrast = None, brightness = None, sharpness = Some 0\<rparr>,
          cameraUpdates = []\<rparr> = Inr st' \<and>
      cameraConfig st' = Some c' \<and> config_ok c' \<and>
      c' = \<lparr>exposure = Some 500, sensitivity = Some 800, saturation = Some 10, contrast = None,
       brightness = None, sharpness = Some 0\<rparr>)"
proof -
  let ?c = "\<lparr>exposure = Some 1, sensitivity = None, saturation = Some 10, contrast = None,
       brightness = None, sharpness = Some 0\<rparr>"
  let ?st = "\<lparr>medianFilters = cycle [0::nat], depthMedian = 0, cameraConfig = Some ?c,
          cameraUpdates = []\<rparr>"
  let ?keys = "[ord_py CHR ''t'', ord_py CHR ''u'', ord_py CHR '';'']"
  have ok: "config_ok ?c" by (simp add: config_ok_def in_bounds_def)
  have st: "cameraConfig ?st = Some ?c" by simp
  have ks: "set ?keys \<subseteq> ord_py ` set ''tgyhujikolp;''" by simp
  have f: "foldl (\<lambda>c k. fst (camera_key k c)) ?c ?keys =
     \<lparr>exposure = Some 500, sensitivity = Some 800, saturation = Some 10, contrast = None,
       brightness = None, sharpness = Some 0\<rparr>"
    by (simp add: camera_key_def ord_py_def Let_def)
  from camera_controls_bounded[OF ok st ks, of "\<lparr>displayFrames = True, cameraControlls = True\<rparr>"]
  show ?thesis using ok f by auto
qed

text \<open>
  The claim as worded fails for \<^verbatim>\<open>t\<close> on an exposure of 1: one step up, clamped,
  would be 501, and the code sets 500.
\<close>

theorem exposure_step_counterexample:
  "config_ok \<lparr>exposure = Some 1, sensitivity = None, saturation = None, contrast = None,
       brightness = None, sharpness = None\<rparr> \<and>
   bound_entry (ord_py CHR ''t'') (fst (camera_key (ord_py CHR ''t'')
     \<lparr>exposure = Some 1, sensitivity = None, saturation = None, contrast = None,
       brightness = None, sharpness = None\<rparr>)) = Some 500 \<and>
   claimed_entry (ord_py CHR ''t'')
     \<lparr>exposure = Some 1, sensitivity = None, saturation = None, contrast = None,
       brightness = None, sharpness = None\<rparr> = Some 501"
  by (simp add: config_ok_def in_bounds_def camera_key_def ord_py_def Let_def bound_entry_def
      claimed_entry_def adjust_def)

text \<open>
  Claim C10. With frames displayed and the camera controls enabled, a press of
  \<^verbatim>\<open>t\<close>, \<^verbatim>\<open>g\<close>, \<^verbatim>\<open>y\<close> or \<^verbatim>\<open>h\<close> is processed without an exception and leaves both
  the exposure and the sensitivity set. After \<^verbatim>\<open>t\<close> or \<^verbatim>\<open>g\<close> the sensitivity is 800
  if it was \<^verbatim>\<open>None\<close> and unchanged otherwise; after \<^verbatim>\<open>y\<close> or \<^verbatim>\<open>h\<close> the exposure is
  10000 if it was \<^verbatim>\<open>None\<close> and unchanged otherwise.
\<close>

theorem exposure_sensitivity_coupled:
  assumes "displayFrames conf" and "cameraControlls conf" and "cameraConfig st = Some c"
    and "key \<in> ord_py ` set ''tgyh''"
  shows "\<exists>st' c'. loop_keys conf key st = Inr st' \<and> cameraConfig st' = Some c' \<and>
      exposure c' \<noteq> None \<and> sensitivity c' \<noteq> None \<and>
      (key \<in> ord_py ` set ''tg'' \<longrightarrow>
         sensitivity c' = (if sensitivity c = None then Some 800 else sensitivity c)) \<and>
      (key \<in> ord_py ` set ''yh'' \<longrightarrow>
         exposure c' = (if exposure c = None then Some 10000 else exposure c))"
proof -
  from assms(4) consider "key = ord_py CHR ''t''" | "key = ord_py CHR ''g''"
    | "key = ord_py CHR ''y''" | "key = ord_py CHR ''h''" by auto
  then show ?thesis
    by cases
      (use assms(1-3) in \<open>auto simp: loop_keys_def camera_controls_def camera_key_def ord_py_def
          Let_def split: option.splits\<close>)
qed

theorem exposure_sensitivity_coupled_witness:
  "\<exists>st' c'. loop_keys \<lparr>displayFrames = True, cameraControlls = True\<rparr> (ord_py CHR ''y'')
       \<lparr>medianFilters = cycle [0::nat], depthMedian = 0,
        cameraConfig = Some \<lparr>exposure = None, sensitivity = None, saturation = None,
            contrast = None, brightness = None, sharpness = None\<rparr>,
        cameraUpdates = []\<rparr> = Inr st' \<and>
     cameraConfig st' = Some c' \<and> exposure c' = Some 10000 \<and> sensitivity c' \<noteq> None"
proof -
  let ?c = "\<lparr>exposure = None, sensitivity = None, saturation = None,
            contrast = None, brightness = None, sharpness = None\<rparr>"
  let ?st = "\<lparr>medianFilters = cycle [0::nat], depthMedian = 0, cameraConfig = Some ?c,
        cameraUpdates = []\<rparr>"
  let ?conf = "\<lparr>displayFrames = True, cameraControlls = True\<rparr>"
  have "displayFrames ?conf" "cameraControlls ?conf" "cameraConfig ?st = Some ?c"
     "ord_py CHR ''y'' \<in> ord_py ` set ''tgyh''" "ord_py CHR ''y'' \<in> ord_py ` set ''yh''"
    by simp_all
  from exposure_sensitivity_coupled[OF this(1-4)] this(5) show ?thesis
    by auto
qed


section \<open>Properties of the median-filter cycle\<close>

lemma first_index_less: "y \<in> set xs \<Longrightarrow> first_index xs y < length xs"
  by (induction xs) auto

lemma nth_first_index: "y \<in> set xs \<Longrightarrow> xs ! first_index xs y = y"
  by (induction xs) auto

lemma scan_median_absent:
  "f \<notin> set (items c) \<Longrightarrow> pos c < length (items c) \<Longrightarrow> scan_median n f c = None"
proof (induction n arbitrary: c)
  case 0
  then show ?case by simp
next
  case (Suc n)
  let ?c' = "c\<lparr>pos := Suc (pos c) mod length (items c)\<rparr>"
  from Suc.prems have ne: "items c \<noteq> []" by auto
  from Suc.prems have "items c ! pos c \<noteq> f" by (metis nth_mem)
  moreover have "scan_median n f ?c' = None"
    using Suc.prems ne by (intro Suc.IH) simp_all
  ultimately show ?case using ne by (simp add: next_cycle_def)
qed

lemma scan_median_present:
  assumes "f \<in> set (drop (pos c) (items c))" "first_index (drop (pos c) (items c)) f < n"
  shows "scan_median n f c =
     Some (c\<lparr>pos := Suc (pos c + first_index (drop (pos c) (items c)) f) mod length (items c)\<rparr>)"
  using assms
proof (induction n arbitrary: c)
  case 0
  then show ?case by simp
next
  case (Suc n)
  let ?xs = "items c" and ?p = "pos c"
  let ?c' = "c\<lparr>pos := Suc ?p mod length ?xs\<rparr>"
  from Suc.prems(1) have p: "?p < length ?xs" by (cases "?p < length ?xs") auto
  then have ne: "?xs \<noteq> []" by auto
  have dr: "drop ?p ?xs = ?xs ! ?p # drop (Suc ?p) ?xs"
    using p by (simp add: Cons_nth_drop_Suc)
  show ?case
  proof (cases "?xs ! ?p = f")
    case True
    then show ?thesis using ne dr by (simp add: next_cycle_def)
  next
    case False
    with Suc.prems(1) dr have mem: "f \<in> set (drop (Suc ?p) ?xs)" by auto
    then have sp: "Suc ?p < length ?xs" by (cases "Suc ?p < length ?xs") auto
    have fi: "first_index (drop ?p ?xs) f = Suc (first_index (drop (Suc ?p) ?xs) f)"
      using False dr by simp
    have "scan_median n f ?c' =
       Some (?c'\<lparr>pos := Suc (pos ?c' + first_index (drop (pos ?c') (items ?c')) f)
           mod length (items ?c')\<rparr>)"
      using mem sp Suc.prems(2) fi by (intro Suc.IH) simp_all
    then show ?thesis using False ne sp fi by (simp add: next_cycle_def)
  qed
qed

lemma scan_median_cycle:
  assumes "f \<in> set fs"
  shows "scan_median (length fs) f (cycle fs) =
     Some \<lparr>items = fs, pos = Suc (first_index fs f) mod length fs\<rparr>"
  using scan_median_present[of f "cycle fs" "length fs"] assms first_index_less[OF assms]
  by (simp add: cycle_def)

text \<open>Over an empty list of choices the scan ends at once, whatever the target.\<close>

lemma scan_median_empty: "scan_median (Suc n) f (cycle []) = Some (cycle [])"
  by (simp add: next_cycle_def cycle_def)

text \<open>
  Claim C9. For a list of choices that is not empty, the start-up scan of \<^verbatim>\<open>Demo.run\<close>
  ends after some number of iterations if and only if the configured median filter is
  one of the choices; if it is, the scan ends within as many iterations as the list has
  items (one pass), and if it is not, the scan is still running after any number of
  iterations.
\<close>

theorem scan_terminates_iff:
  assumes "fs \<noteq> []"
  shows "((\<exists>n. scan_median n f (cycle fs) \<noteq> None) \<longleftrightarrow> f \<in> set fs) \<and>
         (f \<in> set fs \<longrightarrow> scan_median (length fs) f (cycle fs) \<noteq> None) \<and>
         (f \<notin> set fs \<longrightarrow> (\<forall>n. scan_median n f (cycle fs) = None))"
proof -
  have a: "scan_median n f (cycle fs) = None" if "f \<notin> set fs" for n
    using that assms scan_median_absent[of f "cycle fs" n] by (simp add: cycle_def)
  have b: "scan_median (length fs) f (cycle fs) \<noteq> None" if "f \<in> set fs"
    using scan_median_cycle[OF that] by simp
  from a have "\<forall>n. f \<notin> set fs \<longrightarrow> scan_median n f (cycle fs) = None" by simp
  with b show ?thesis by auto
qed

theorem scan_terminates_iff_witness:
  "[0, 1, 2::nat] \<noteq> [] \<and> scan_median 3 2 (cycle [0, 1, 2::nat]) = Some \<lparr>items = [0, 1, 2], pos = 0\<rparr> \<and>
   (\<forall>n. scan_median n 7 (cycle [0, 1, 2::nat]) = None)"
proof -
  have ne: "[0, 1, 2::nat] \<noteq> []" by simp
  have "scan_median 3 2 (cycle [0, 1, 2::nat]) = Some \<lparr>items = [0, 1, 2], pos = 0\<rparr>"
    by code_simp
  moreover have "\<forall>n. scan_median n 7 (cycle [0, 1, 2::nat]) = None"
    using scan_terminates_iff[OF ne, of 7] by simp
  ultimately show ?thesis by simp
qed

lemma press_m:
  assumes "displayFrames conf" "items (medianFilters st) = fs" "fs \<noteq> []"
    "pos (medianFilters st) = Suc k mod length fs"
  shows "\<exists>st'. loop_keys conf (ord_py CHR ''m'') st = Inr st' \<and>
      items (medianFilters st') = fs \<and> pos (medianFilters st') = Suc (Suc k) mod length fs \<and>
      depthMedian st' = fs ! (Suc k mod length fs)"
  using assms
  by (simp add: loop_keys_def next_cycle_def camera_controls_def ord_py_def mod_Suc_eq)

lemma press_m_seq:
  assumes "displayFrames conf" "fs \<noteq> []"
  shows "items (medianFilters st) = fs \<Longrightarrow> pos (medianFilters st) = Suc k mod length fs \<Longrightarrow>
     depthMedian st = fs ! (k mod length fs) \<Longrightarrow>
     \<exists>st'. loop_key_seq conf (replicate n (ord_py CHR ''m'')) st = Inr st' \<and>
       depthMedian st' = fs ! ((k + n) mod length fs)"
proof (induction n arbitrary: st k)
  case 0
  then show ?case by simp
next
  case (Suc n)
  from press_m[OF assms(1) Suc.prems(1) assms(2) Suc.prems(2)]
  obtain st1 where s1: "loop_keys conf (ord_py CHR ''m'') st = Inr st1"
    "items (medianFilters st1) = fs" "pos (medianFilters st1) = Suc (Suc k) mod length fs"
    "depthMedian st1 = fs ! (Suc k mod length fs)" by blast
  from Suc.IH[OF s1(2,3,4)] s1(1) show ?case by simp
qed

text \<open>
  Claim C1. Let frames be displayed and let the configured median filter \<open>f\<close> be one
  of the choices \<open>fs\<close>. The start-up scan ends within one pass, and from the state it
  leaves, with \<open>f\<close> active, \<open>n\<close> presses of \<^verbatim>\<open>m\<close> are processed without an exception
  and leave active the choice \<open>n\<close> places after the first occurrence of \<open>f\<close> in
  \<open>fs\<close>, counted modulo the length of \<open>fs\<close>.
\<close>

theorem median_filter_cycles:
  assumes "displayFrames conf" and "f \<in> set fs"
  shows "\<exists>c0. scan_median (length fs) f (cycle fs) = Some c0 \<and>
     (\<forall>st. medianFilters st = c0 \<and> depthMedian st = f \<longrightarrow>
        (\<exists>st'. loop_key_seq conf (replicate n (ord_py CHR ''m'')) st = Inr st' \<and>
           depthMedian st' = fs ! ((first_index fs f + n) mod length fs)))"
proof -
  let ?i = "first_index fs f"
  let ?c0 = "\<lparr>items = fs, pos = Suc ?i mod length fs\<rparr>"
  from assms(2) have ne: "fs \<noteq> []" by auto
  have i: "?i < length fs" "fs ! ?i = f"
    using assms(2) by (simp_all add: first_index_less nth_first_index)
  have "\<exists>st'. loop_key_seq conf (replicate n (ord_py CHR ''m'')) st = Inr st' \<and>
           depthMedian st' = fs ! ((?i + n) mod length fs)"
    if "medianFilters st = ?c0" "depthMedian st = f" for st :: "'a demo"
    using press_m_seq[OF assms(1) ne, of st ?i n] that i by simp
  with scan_median_cycle[OF assms(2)] show ?thesis by blast
qed

theorem median_filter_cycles_witness:
  "\<exists>st'. loop_key_seq \<lparr>displayFrames = True, cameraControlls = True\<rparr>
       (replicate 3 (ord_py CHR ''m''))
       \<lparr>medianFilters = \<lparr>items = [10, 20, 30, 40::nat], pos = 3\<rparr>, depthMedian = 30,
        cameraConfig = None, cameraUpdates = []\<rparr> = Inr st' \<and> depthMedian st' = 20"
proof -
  let ?conf = "\<lparr>displayFrames = True, cameraControlls = True\<rparr>"
  let ?fs = "[10, 20, 30, 40::nat]"
  let ?st = "\<lparr>medianFilters = \<lparr>items = ?fs, pos = 3\<rparr>, depthMedian = 30,
        cameraConfig = None, cameraUpdates = []\<rparr>"
  have d: "displayFrames ?conf" and m: "(30::nat) \<in> set ?fs" by simp_all
  have sc: "scan_median (length ?fs) 30 (cycle ?fs) = Some \<lparr>items = ?fs, pos = 3\<rparr>"
    using scan_median_cycle[OF m] by simp
  have ix: "?fs ! ((first_index ?fs 30 + 3) mod length ?fs) = 20" by simp
  from median_filter_cycles[OF d m, of 3] sc ix
  have "\<forall>st. medianFilters st = \<lparr>items = ?fs, pos = 3\<rparr> \<and> depthMedian st = 30 \<longrightarrow>
        (\<exists>st'. loop_key_seq ?conf (replicate 3 (ord_py CHR ''m'')) st = Inr st' \<and>
           depthMedian st' = 20)"
    by simp
  from this[rule_format, of ?st] show ?thesis by simp
qed


section \<open>Properties of the queue reads\<close>

text \<open>
  Claim C3, as amended. In every configuration and every iteration, each read that
  \<^verbatim>\<open>Demo.loop\<close> itself makes from an output queue is a \<^verbatim>\<open>tryGet\<close> or a
  \<^verbatim>\<open>tryGetAll\<close>, with one exception: when the demo reads a video file, uses a network
  and runs in sync mode, and the network's queue has delivered a result in this
  iteration, the loop then makes a blocking \<^verbatim>\<open>get\<close> on the host queue. A blocking read
  happens in exactly this case.
\<close>

theorem loop_reads_blocking:
  "(\<forall>op \<in> set (fst (loop_reads conf env)). blocking op \<longrightarrow> op = Get HostOut) \<and>
   ((\<exists>op \<in> set (fst (loop_reads conf env)). blocking op) \<longleftrightarrow>
      \<not> useCamera conf \<and> useNN conf \<and> sync conf \<and> readCorrectly env \<and> inNn env)"
proof -
  have "blocking (Get HostOut)" by simp
  then show ?thesis
    by (auto simp: loop_reads_def intro: bexI[of _ "Get HostOut"])
qed

theorem loop_reads_blocking_witness:
  "fst (loop_reads \<lparr>useCamera = True, useNN = True, sync = True, spatialBoundingBox = True,
       video = [], report = [''temp''], encode = [''color''], encodeOutput = []\<rparr>
      \<lparr>readCorrectly = True, inNn = True\<rparr>) = [TryGet SbbOut, TryGet NnOut, TryGetAll LogOut] \<and>
   \<not> (\<exists>op \<in> set (fst (loop_reads \<lparr>useCamera = True, useNN = True, sync = True,
       spatialBoundingBox = True, video = [], report = [''temp''], encode = [''color''],
       encodeOutput = []\<rparr> \<lparr>readCorrectly = True, inNn = True\<rparr>)). blocking op)"
  using loop_reads_blocking[of "\<lparr>useCamera = True, useNN = True, sync = True,
       spatialBoundingBox = True, video = [], report = [''temp''], encode = [''color''],
       encodeOutput = []\<rparr>" "\<lparr>readCorrectly = True, inNn = True\<rparr>"]
  by (simp add: loop_reads_def sbbOut_set_def logOut_set_def)

text \<open>
  The claim as worded fails: with a video file, a network and sync mode, an iteration
  that finds a network result reads the host queue with \<^verbatim>\<open>get\<close> (line 315).
\<close>

theorem loop_reads_counterexample:
  "loop_reads \<lparr>useCamera = False, useNN = True, sync = True, spatialBoundingBox = False,
       video = ''clip.mp4'', report = [], encode = ([]::string list), encodeOutput = []\<rparr>
      \<lparr>readCorrectly = True, inNn = True\<rparr> = ([TryGet NnOut, Get HostOut], None) \<and>
   blocking (Get HostOut)"
  by (simp add: loop_reads_def sbbOut_set_def logOut_set_def)

section \<open>Properties of the start-up check\<close>

text \<open>
  Claim C4. When the demo reads a video file, let \<open>p\<close> be the resolved path: the
  downloaded file for a path that starts with \<^verbatim>\<open>https\<close>, else the path as given. If
  \<open>p\<close> does not exist, start-up raises \<^verbatim>\<open>ValueError\<close> and neither a pipeline manager
  nor a device is created; if \<open>p\<close> exists, the check raises nothing and start-up goes
  on with \<open>p\<close> as the video. With a camera the check raises nothing.
\<close>

theorem video_check_raises:
  "(\<not> useCamera conf \<longrightarrow>
      (let p = (if startswith (video conf) ''https'' then downloadYTVideo (video conf)
                else video conf)
       in (\<not> exists p \<longrightarrow> startup downloadYTVideo exists conf = (Inl ValueError, [])) \<and>
          (exists p \<longrightarrow> fst (startup downloadYTVideo exists conf) = Inr (conf\<lparr>video := p\<rparr>)))) \<and>
   (useCamera conf \<longrightarrow> fst (startup downloadYTVideo exists conf) = Inr conf)"
  by (simp add: startup_def video_check_def Let_def)

theorem video_check_raises_witness:
  "startup (\<lambda>u. ''videos/clip.mp4'') (\<lambda>p. p = ''videos/clip.mp4'')
      \<lparr>useCamera = False, useNN = True, sync = False, spatialBoundingBox = False,
       video = ''missing.mp4'', report = [], encode = ([]::string list), encodeOutput = []\<rparr>
     = (Inl ValueError, []) \<and>
   fst (startup (\<lambda>u. ''videos/clip.mp4'') (\<lambda>p. p = ''videos/clip.mp4'')
      \<lparr>useCamera = False, useNN = True, sync = False, spatialBoundingBox = False,
       video = ''https://example.org/v'', report = [], encode = ([]::string list),
       encodeOutput = []\<rparr>)
     = Inr \<lparr>useCamera = False, useNN = True, sync = False, spatialBoundingBox = False,
       video = ''videos/clip.mp4'', report = [], encode = ([]::string list), encodeOutput = []\<rparr>"
  using video_check_raises[of "\<lparr>useCamera = False, useNN = True, sync = False,
       spatialBoundingBox = False, video = ''missing.mp4'', report = [],
       encode = ([]::string list), encodeOutput = []\<rparr>" "\<lambda>u. ''videos/clip.mp4''"
       "\<lambda>p. p = ''videos/clip.mp4''"]
    video_check_raises[of "\<lparr>useCamera = False, useNN = True, sync = False,
       spatialBoundingBox = False, video = ''https://example.org/v'', report = [],
       encode = ([]::string list), encodeOutput = []\<rparr>" "\<lambda>u. ''videos/clip.mp4''"
       "\<lambda>p. p = ''videos/clip.mp4''"]
  by (simp add: startswith_def Let_def)

section \<open>Properties of the wait in \<^verbatim>\<open>App.stop\<close>\<close>

lemma wait_available_raises:
  assumes "\<not> clock m - start < 10"
    and "\<forall>i. n \<le> i \<and> i < m \<longrightarrow> clock i - start < 10 \<and> mxid \<notin> set (devices i)"
    and "n \<le> m"
  shows "wait_available mxid start clock devices n = Some (Inl RuntimeError)"
  using assms(2,3)
proof (induction "m - n" arbitrary: n)
  case 0
  then have "n = m" by simp
  with assms(1) show ?case by (subst wait_available.simps) simp
next
  case (Suc d)
  then have lt: "n < m" by simp
  with Suc.prems have here: "clock n - start < 10" "mxid \<notin> set (devices n)" by auto
  have "wait_available mxid start clock devices (Suc n) = Some (Inl RuntimeError)"
    using Suc.hyps Suc.prems lt by (intro Suc.hyps(1)) auto
  with here show ?case by (subst wait_available.simps) simp
qed

lemma wait_available_returns:
  assumes "mxid \<in> set (devices m)"
    and "\<forall>i. n \<le> i \<and> i \<le> m \<longrightarrow> clock i - start < 10"
    and "n \<le> m"
  shows "wait_available mxid start clock devices n = Some (Inr ())"
  using assms(2,3)
proof (induction "m - n" arbitrary: n)
  case 0
  then have "n = m" by simp
  with assms(1) 0 show ?case by (subst wait_available.simps) simp
next
  case (Suc d)
  then have lt: "n < m" by simp
  with Suc.prems have here: "clock n - start < 10" by auto
  have "wait_available mxid start clock devices (Suc n) = Some (Inr ())"
    using Suc.hyps Suc.prems lt by (intro Suc.hyps(1)) auto
  with here show ?case by (subst wait_available.simps) simp
qed

text \<open>
  If the clock never reaches ten seconds after the start and the device never shows up,
  the loop does not end.
\<close>

lemma wait_available_forever:
  assumes "\<forall>i\<ge>n. clock i - start < 10 \<and> mxid \<notin> set (devices i)"
  shows "wait_available mxid start clock devices n = None"
proof (rule ccontr)
  assume "wait_available mxid start clock devices n \<noteq> None"
  then obtain r where r: "wait_available mxid start clock devices n = Some r" by auto
  have "\<exists>i\<ge>n. \<not> (clock i - start < 10 \<and> mxid \<notin> set (devices i))"
  proof (rule wait_available.raw_induct[where P = "\<lambda>mxid start clock devices n r.
           \<exists>i\<ge>n. \<not> (clock i - start < 10 \<and> mxid \<notin> set (devices i))", OF _ r])
    fix wait and mxid' :: 'a and start' clock' devices' n' r'
    assume ih: "\<And>mxid start clock devices n r. wait mxid start clock devices n = Some r \<Longrightarrow>
        \<exists>i\<ge>n. \<not> (clock i - start < 10 \<and> mxid \<notin> set (devices i))"
      and step: "(if clock' n' - start' < 10
           then if mxid' \<in> set (devices' n') then Some (Inr ())
                else wait mxid' start' clock' devices' (Suc n')
           else Some (Inl RuntimeError)) = Some r'"
    show "\<exists>i\<ge>n'. \<not> (clock' i - start' < 10 \<and> mxid' \<notin> set (devices' i))"
    proof (cases "clock' n' - start' < 10 \<and> mxid' \<notin> set (devices' n')")
      case True
      with step have "wait mxid' start' clock' devices' (Suc n') = Some r'" by simp
      from ih[OF this] obtain i where "Suc n' \<le> i"
        "\<not> (clock' i - start' < 10 \<and> mxid' \<notin> set (devices' i))" by blast
      then show ?thesis by (intro exI[of _ i]) simp
    next
      case False
      then show ?thesis by (intro exI[of _ n']) simp
    qed
  qed
  with assms show False by blast
qed

text \<open>
  Claim C5. If a reading of the clock reaches ten seconds after the start before any
  poll of the available devices has shown the MxId of the device, \<^verbatim>\<open>App.stop\<close> raises
  \<^verbatim>\<open>RuntimeError\<close>. If a poll shows the MxId while all readings of the clock up to
  that poll are less than ten seconds after the start, \<^verbatim>\<open>App.stop\<close> returns without
  raising.
\<close>

theorem stop_waits_for_device:
  "((\<exists>m\<ge>1. \<not> clock m - clock 0 < 10 \<and>
        (\<forall>i. 1 \<le> i \<and> i < m \<longrightarrow> clock i - clock 0 < 10 \<and> mxid \<notin> set (devices i))) \<longrightarrow>
      stop mxid clock devices = Some (Inl RuntimeError)) \<and>
   ((\<exists>m\<ge>1. mxid \<in> set (devices m) \<and> (\<forall>i. 1 \<le> i \<and> i \<le> m \<longrightarrow> clock i - clock 0 < 10)) \<longrightarrow>
      stop mxid clock devices = Some (Inr ()))"
  unfolding stop_def
  using wait_available_raises[of clock _ "clock 0" 1 mxid devices]
    wait_available_returns[of mxid devices _ 1 clock "clock 0"]
  by blast

theorem stop_waits_for_device_witness:
  "stop ''B'' (\<lambda>n. 3 * real n) (\<lambda>n. if n = 2 then [''A''] else []) = Some (Inl RuntimeError) \<and>
   stop ''A'' (\<lambda>n. 3 * real n) (\<lambda>n. if n = 2 then [''A''] else []) = Some (Inr ())"
proof -
  let ?clock = "\<lambda>n. 3 * real n" and ?devices = "\<lambda>n::nat. if n = 2 then [''A''] else []"
  have a: "\<exists>m\<ge>1. \<not> ?clock m - ?clock 0 < 10 \<and>
        (\<forall>i. 1 \<le> i \<and> i < m \<longrightarrow> ?clock i - ?clock 0 < 10 \<and> ''B'' \<notin> set (?devices i))"
    by (rule exI[of _ 4]) auto
  have b: "\<exists>m\<ge>1. ''A'' \<in> set (?devices m) \<and> (\<forall>i. 1 \<le> i \<and> i \<le> m \<longrightarrow> ?clock i - ?clock 0 < 10)"
    by (rule exI[of _ 2]) auto
  from a b stop_waits_for_device[of ?clock "''B''" ?devices]
    stop_waits_for_device[of ?clock "''A''" ?devices]
  show ?thesis by blast
qed

section \<open>Properties of the encoder set-up\<close>

text \<open>
  With the camera in use and exactly one entry in \<^verbatim>\<open>args.encode\<close>, the attribute is set
  to \<^verbatim>\<open>None\<close>: the test at line 182 is \<^verbatim>\<open>len(...) > 1\<close>.
\<close>

lemma setup_encoding_single:
  "useCamera conf \<Longrightarrow> encode conf = [e] \<Longrightarrow> setup_encoding conf prev = (NoneValue, [])"
  by (simp add: setup_encoding_def)

text \<open>
  Claim C7, as amended. When the camera is used or sync mode is on, \<^verbatim>\<open>Demo.setup\<close>
  creates an encoding manager from \<^verbatim>\<open>args.encode\<close> and adds its encoders to the
  pipeline if \<^verbatim>\<open>args.encode\<close> has at least two entries, and sets
  \<^verbatim>\<open>self._encManager\<close> to \<^verbatim>\<open>None\<close> if \<^verbatim>\<open>args.encode\<close> is empty. When neither the
  camera nor sync mode is used, \<^verbatim>\<open>Demo.setup\<close> creates no encoding manager, adds no
  encoder and leaves \<^verbatim>\<open>self._encManager\<close> as it was.
\<close>

theorem setup_encoding_gated:
  "(useCamera conf \<or> sync conf \<longrightarrow>
      (2 \<le> length (encode conf) \<longrightarrow>
         setup_encoding conf prev =
           (EncodingManager (encode conf) (encodeOutput conf), encode conf)) \<and>
      (encode conf = [] \<longrightarrow> setup_encoding conf prev = (NoneValue, []))) \<and>
   (\<not> (useCamera conf \<or> sync conf) \<longrightarrow> setup_encoding conf prev = (prev, []))"
  by (auto simp: setup_encoding_def)

theorem setup_encoding_gated_witness:
  "setup_encoding \<lparr>useCamera = True, useNN = False, sync = False, spatialBoundingBox = False,
       video = [], report = [], encode = [''color'', ''left''], encodeOutput = ''out''\<rparr>
     Unassigned = (EncodingManager [''color'', ''left''] ''out'', [''color'', ''left'']) \<and>
   setup_encoding \<lparr>useCamera = True, useNN = False, sync = False, spatialBoundingBox = False,
       video = [], report = [], encode = ([]::string list), encodeOutput = ''out''\<rparr>
     Unassigned = (NoneValue, []) \<and>
   setup_encoding \<lparr>useCamera = False, useNN = True, sync = False, spatialBoundingBox = False,
       video = ''clip.mp4'', report = [], encode = ([]::string list), encodeOutput = ''out''\<rparr>
     Unassigned = (Unassigned, [])"
  using setup_encoding_gated[of "\<lparr>useCamera = True, useNN = False, sync = False,
       spatialBoundingBox = False, video = [], report = [], encode = [''color'', ''left''],
       encodeOutput = ''out''\<rparr>" Unassigned]
    setup_encoding_gated[of "\<lparr>useCamera = True, useNN = False, sync = False,
       spatialBoundingBox = False, video = [], report = [], encode = ([]::string list),
       encodeOutput = ''out''\<rparr>" Unassigned]
    setup_encoding_gated[of "\<lparr>useCamera = False, useNN = True, sync = False,
       spatialBoundingBox = False, video = ''clip.mp4'', report = [], encode = ([]::string list),
       encodeOutput = ''out''\<rparr>" Unassigned]
  by simp

text \<open>
  The claim as worded fails: with a video file and without sync mode, two entries in
  \<^verbatim>\<open>args.encode\<close> create no encoding manager, and the attribute is not set to
  \<^verbatim>\<open>None\<close> either.
\<close>

theorem setup_encoding_counterexample:
  "encode \<lparr>useCamera = False, useNN = True, sync = False, spatialBoundingBox = False,
       video = ''clip.mp4'', report = [], encode = [''color'', ''left''],
       encodeOutput = ''out''\<rparr> \<noteq> [] \<and>
   setup_encoding \<lparr>useCamera = False, useNN = True, sync = False, spatialBoundingBox = False,
       video = ''clip.mp4'', report = [], encode = [''color'', ''left''],
       encodeOutput = ''out''\<rparr> Unassigned = (Unassigned, [])"
  by (simp add: setup_encoding_def)


section \<open>Properties of the report\<close>

lemma dict_set_new: "k \<notin> fst ` set d \<Longrightarrow> dict_set d k v = d @ [(k, v)]"
  by (induction d) auto

lemma dict_extend_new:
  "distinct (map fst kvs) \<Longrightarrow> fst ` set d \<inter> fst ` set kvs = {} \<Longrightarrow> dict_extend d kvs = d @ kvs"
proof (induction kvs arbitrary: d)
  case Nil
  then show ?case by (simp add: dict_extend_def)
next
  case (Cons kv kvs)
  obtain k v where kv: "kv = (k, v)" by (cases kv)
  from Cons.prems kv have new: "k \<notin> fst ` set d" by auto
  have "dict_extend (d @ [(k, v)]) kvs = (d @ [(k, v)]) @ kvs"
    using Cons.prems kv by (intro Cons.IH) (auto simp: image_Un)
  then show ?case using new kv by (simp add: dict_extend_def dict_set_new)
qed

lemma columns_distinct: "distinct (report_columns rep)"
  by (auto simp: report_columns_def memory_columns_def temp_columns_def cpu_columns_def)

lemma report_data_eq: "report_data rep info = zip (report_columns rep) (report_values rep info)"
proof -
  let ?m = "[(''ddrUsed'', IntV (ddrMemoryUsage_used info)),
                      (''ddrTotal'', IntV (ddrMemoryUsage_total info)),
                      (''cmxUsed'', IntV (cmxMemoryUsage_used info)),
                      (''cmxTotal'', IntV (cmxMemoryUsage_total info)),
                      (''leonCssUsed'', IntV (leonCssMemoryUsage_used info)),
                      (''leonCssTotal'', IntV (leonCssMemoryUsage_total info)),
                      (''leonMssUsed'', IntV (leonMssMemoryUsage_used info)),
                      (''leonMssTotal'', IntV (leonMssMemoryUsage_total info))]"
  let ?t = "[(''tempAvg'', FloatV (chipTemperature_average info)),
                      (''tempCss'', FloatV (chipTemperature_css info)),
                      (''tempMss'', FloatV (chipTemperature_mss info)),
                      (''tempUpa0'', FloatV (chipTemperature_upa info)),
                      (''tempUpa1'', FloatV (chipTemperature_dss info))]"
  let ?c = "[(''cpuCssAvg'', FloatV (leonCssCpuUsage_average info)),
                      (''cpuMssAvg'', FloatV (leonMssCpuUsage_average info))]"
  have m: "dict_extend [] ?m = ?m" by (subst dict_extend_new) simp_all
  have t0: "dict_extend [] ?t = ?t" by (subst dict_extend_new) simp_all
  have t1: "dict_extend ?m ?t = ?m @ ?t" by (subst dict_extend_new) simp_all
  have c0: "dict_extend [] ?c = ?c" by (subst dict_extend_new) simp_all
  have c1: "dict_extend ?m ?c = ?m @ ?c" by (subst dict_extend_new) simp_all
  have c2: "dict_extend ?t ?c = ?t @ ?c" by (subst dict_extend_new) simp_all
  have c3: "dict_extend (?m @ ?t) ?c = (?m @ ?t) @ ?c" by (subst dict_extend_new) simp_all
  show ?thesis
    unfolding report_data_def Let_def
    by (simp only: m t0 t1 c0 c1 c2 c3 if_True if_False split: if_splits)
       (simp add: report_columns_def report_values_def memory_columns_def temp_columns_def
          cpu_columns_def)
qed


lemma report_lengths:
  "length (report_columns rep) =
     (if ''memory'' \<in> set rep then 8 else 0) + (if ''temp'' \<in> set rep then 5 else 0) +
     (if ''cpu'' \<in> set rep then 2 else 0)"
  "length (report_values rep info) = length (report_columns rep)"
  by (simp_all add: report_columns_def report_values_def memory_columns_def temp_columns_def
      cpu_columns_def)

lemma report_data_keys: "map fst (report_data rep info) = report_columns rep"
  by (simp add: report_data_eq report_lengths(2))

lemma report_data_values: "map snd (report_data rep info) = report_values rep info"
  by (simp add: report_data_eq report_lengths(2))

lemma printSysInfo_eq:
  assumes "\<forall>d. onReport d = d"
  shows "printSysInfo str onReport rep info rfile =
     rfile @ (if rfile = [] then join '','' (report_columns rep) @ [CHR 0x0A] else []) @
     join '','' (map str (report_values rep info)) @ [CHR 0x0A]"
  using assms
  by (simp add: printSysInfo_def Let_def tell_def print_to_def report_data_keys
      report_data_values flip: map_map)

lemma print_logs_nonempty:
  assumes "\<forall>d. onReport d = d"
  shows "rfile \<noteq> [] \<Longrightarrow> print_logs str onReport rep logs rfile =
     rfile @ concat (map (\<lambda>info. join '','' (map str (report_values rep info)) @ [CHR 0x0A]) logs)"
proof (induction logs arbitrary: rfile)
  case Nil
  then show ?case by simp
next
  case (Cons info logs)
  let ?f = "printSysInfo str onReport rep info rfile"
  have f: "?f = rfile @ join '','' (map str (report_values rep info)) @ [CHR 0x0A]"
    using Cons.prems by (simp add: printSysInfo_eq[OF assms])
  then have "?f \<noteq> []" by simp
  from Cons.IH[OF this] f show ?case by simp
qed

lemma print_logs_eq:
  assumes "\<forall>d. onReport d = d"
  shows "print_logs str onReport rep logs rfile =
     rfile @ (if rfile = [] \<and> logs \<noteq> [] then join '','' (report_columns rep) @ [CHR 0x0A] else []) @
     concat (map (\<lambda>info. join '','' (map str (report_values rep info)) @ [CHR 0x0A]) logs)"
proof (cases logs)
  case Nil
  then show ?thesis by simp
next
  case (Cons info logs')
  let ?f = "printSysInfo str onReport rep info rfile"
  have f: "?f = rfile @ (if rfile = [] then join '','' (report_columns rep) @ [CHR 0x0A] else []) @
     join '','' (map str (report_values rep info)) @ [CHR 0x0A]"
    by (rule printSysInfo_eq[OF assms])
  then have "?f \<noteq> []" by simp
  from print_logs_nonempty[OF assms this, of str rep logs'] f Cons show ?thesis by simp
qed

lemma rfind_append_csv: "rfind CHR ''.'' (stem @ ''.csv'') = Some (length stem)"
  by (simp add: rfind_def)

lemma path_suffix_csv: "stem \<noteq> [] \<Longrightarrow> path_suffix (stem @ ''.csv'') = ''.csv''"
  by (simp add: path_suffix_def rfind_append_csv)

lemma path_suffix_drop:
  "path_suffix name \<noteq> [] \<Longrightarrow> \<exists>i. 0 < i \<and> i < length name \<and> path_suffix name = drop i name"
  by (auto simp: path_suffix_def split: option.splits if_splits)

lemma with_suffix_csv:
  assumes "name \<noteq> []"
  shows "\<exists>n. with_suffix name ''.csv'' = Inr n \<and> path_suffix n = ''.csv''"
proof (cases "path_suffix name = []")
  case True
  with assms show ?thesis by (simp add: with_suffix_def path_suffix_csv)
next
  case False
  from path_suffix_drop[OF this] obtain i where i: "0 < i" "i < length name"
    "path_suffix name = drop i name" by blast
  then have "take (length name - length (path_suffix name)) name \<noteq> []" by auto
  with assms False show ?thesis by (simp add: with_suffix_def Let_def path_suffix_csv)
qed

text \<open>
  Claim C6. The report path gets the suffix \<^verbatim>\<open>.csv\<close> whenever its last component
  is not empty (the only case in which \<^verbatim>\<open>with_suffix\<close> returns). With a callback that
  leaves the dictionary alone, writing a list of messages appends to the file: the
  header line of column names, only if the file was empty and there is a message, and
  then one line per message. The header holds the columns of the groups asked for, memory
  (8), temperature (5), processor (2), in this order and without repetition; each data
  line holds the values of exactly these columns in the same order; both are separated
  by commas.
\<close>

theorem report_csv:
  assumes "\<forall>d. onReport d = d"
  shows "(name \<noteq> [] \<longrightarrow> (\<exists>n. with_suffix name ''.csv'' = Inr n \<and> path_suffix n = ''.csv'')) \<and>
     print_logs str onReport rep logs rfile =
       rfile @
       (if rfile = [] \<and> logs \<noteq> [] then join '','' (report_columns rep) @ [CHR 0x0A] else []) @
       concat (map (\<lambda>info. join '','' (map str (report_values rep info)) @ [CHR 0x0A]) logs) \<and>
     (\<forall>info. map fst (report_data rep info) = report_columns rep \<and>
             map snd (report_data rep info) = report_values rep info \<and>
             length (report_values rep info) = length (report_columns rep)) \<and>
     distinct (report_columns rep) \<and>
     length (report_columns rep) =
       (if ''memory'' \<in> set rep then 8 else 0) + (if ''temp'' \<in> set rep then 5 else 0) +
       (if ''cpu'' \<in> set rep then 2 else 0)"
proof -
  have 1: "name \<noteq> [] \<longrightarrow> (\<exists>n. with_suffix name ''.csv'' = Inr n \<and> path_suffix n = ''.csv'')"
    using with_suffix_csv[of name] by blast
  have 2: "print_logs str onReport rep logs rfile =
       rfile @
       (if rfile = [] \<and> logs \<noteq> [] then join '','' (report_columns rep) @ [CHR 0x0A] else []) @
       concat (map (\<lambda>info. join '','' (map str (report_values rep info)) @ [CHR 0x0A]) logs)"
    by (rule print_logs_eq[OF assms])
  have 3: "\<forall>info. map fst (report_data rep info) = report_columns rep \<and>
             map snd (report_data rep info) = report_values rep info \<and>
             length (report_values rep info) = length (report_columns rep)"
    by (intro allI conjI report_data_keys report_data_values report_lengths(2))
  have 4: "distinct (report_columns rep)" by (rule columns_distinct)
  have 5: "length (report_columns rep) =
       (if ''memory'' \<in> set rep then 8 else 0) + (if ''temp'' \<in> set rep then 5 else 0) +
       (if ''cpu'' \<in> set rep then 2 else 0)"
    by (rule report_lengths(1))
  show ?thesis by (intro conjI) (rule 1 2 3 4 5)+
qed

theorem report_csv_witness:
  "(\<exists>n. with_suffix ''report.txt'' ''.csv'' = Inr n \<and> path_suffix n = ''.csv'') \<and>
   print_logs (\<lambda>v. case v of IntV i \<Rightarrow> ''7'' | FloatV (r::nat) \<Rightarrow> ''0.5'') (\<lambda>d. d) [''cpu'']
     [\<lparr>ddrMemoryUsage_used = 7, ddrMemoryUsage_total = 7, cmxMemoryUsage_used = 7,
       cmxMemoryUsage_total = 7, leonCssMemoryUsage_used = 7, leonCssMemoryUsage_total = 7,
       leonMssMemoryUsage_used = 7, leonMssMemoryUsage_total = 7, chipTemperature_average = 0,
       chipTemperature_css = 0, chipTemperature_mss = 0, chipTemperature_upa = 0,
       chipTemperature_dss = 0, leonCssCpuUsage_average = 0, leonMssCpuUsage_average = 0\<rparr>,
      \<lparr>ddrMemoryUsage_used = 7, ddrMemoryUsage_total = 7, cmxMemoryUsage_used = 7,
       cmxMemoryUsage_total = 7, leonCssMemoryUsage_used = 7, leonCssMemoryUsage_total = 7,
       leonMssMemoryUsage_used = 7, leonMssMemoryUsage_total = 7, chipTemperature_average = 0,
       chipTemperature_css = 0, chipTemperature_mss = 0, chipTemperature_upa = 0,
       chipTemperature_dss = 0, leonCssCpuUsage_average = 0, leonMssCpuUsage_average = 0\<rparr>] []
     = ''cpuCssAvg,cpuMssAvg'' @ [CHR 0x0A] @ ''0.5,0.5'' @ [CHR 0x0A] @ ''0.5,0.5'' @ [CHR 0x0A]"
proof -
  let ?str = "\<lambda>v. case v of IntV i \<Rightarrow> ''7'' | FloatV (r::nat) \<Rightarrow> ''0.5''"
  let ?info = "\<lparr>ddrMemoryUsage_used = 7, ddrMemoryUsage_total = 7, cmxMemoryUsage_used = 7,
       cmxMemoryUsage_total = 7, leonCssMemoryUsage_used = 7, leonCssMemoryUsage_total = 7,
       leonMssMemoryUsage_used = 7, leonMssMemoryUsage_total = 7,
       chipTemperature_average = 0::nat, chipTemperature_css = 0, chipTemperature_mss = 0,
       chipTemperature_upa = 0, chipTemperature_dss = 0, leonCssCpuUsage_average = 0,
       leonMssCpuUsage_average = 0\<rparr>"
  have id: "\<forall>d::(string \<times> nat val) list. (\<lambda>d. d) d = d" by simp
  have ne: "''report.txt'' \<noteq> []" by simp
  from report_csv[OF id, of "''report.txt''" ?str "[''cpu'']" "[?info, ?info]" "[]"] ne
  show ?thesis
    by (auto simp: report_columns_def report_values_def cpu_columns_def)
qed


section \<open>Properties of the mirrored trackbars\<close>

lemma map_of_dict_set: "map_of (dict_set d k v) = (map_of d)(k \<mapsto> v)"
  by (induction d) auto

lemma keys_dict_set: "k \<in> fst ` set d \<Longrightarrow> map fst (dict_set d k v) = map fst d"
  by (induction d) force+

lemma windows_of_registered:
  assumes "w \<in> set (windows_of st name)"
  obtains d cur where "map_of (instances st) name = Some d" "w \<in> fst ` set d"
    "map_of d w = Some cur" "windows_of st name = map fst d"
proof -
  from assms have "\<exists>d. map_of (instances st) name = Some d \<and> w \<in> fst ` set d"
    by (cases "map_of (instances st) name") (simp_all add: windows_of_def)
  then obtain d where d: "map_of (instances st) name = Some d" "w \<in> fst ` set d"
    by blast
  then obtain cur where "map_of d w = Some cur"
    by (metis domD dom_map_of_conv_image_fst)
  with d that show ?thesis by (simp add: windows_of_def)
qed

lemma moved_to_refl: "moved_to name value st st"
  by (simp add: moved_to_def)

lemma moved_to_trans:
  assumes "moved_to name value st1 st2" "moved_to name value st2 st3"
  shows "moved_to name value st1 st3"
  unfolding moved_to_def
proof (intro conjI allI)
  show "windows_of st3 name = windows_of st1 name"
    using assms by (simp add: moved_to_def)
next
  fix w
  from assms have a: "(stored_value st2 name w = stored_value st1 name w \<and>
         positions st2 (name, w) = positions st1 (name, w)) \<or>
       (stored_value st2 name w = Some value \<and> positions st2 (name, w) = Some value)"
    and b: "(stored_value st3 name w = stored_value st2 name w \<and>
         positions st3 (name, w) = positions st2 (name, w)) \<or>
       (stored_value st3 name w = Some value \<and> positions st3 (name, w) = Some value)"
    by (simp_all add: moved_to_def)
  from a b show "(stored_value st3 name w = stored_value st1 name w \<and>
         positions st3 (name, w) = positions st1 (name, w)) \<or>
       (stored_value st3 name w = Some value \<and> positions st3 (name, w) = Some value)"
    by metis
qed

lemma moved_to_keeps:
  "moved_to name value st st' \<Longrightarrow> stored_value st name w = Some value \<Longrightarrow>
   stored_value st' name w = Some value"
  by (metis moved_to_def)

lemma pending_finite: "finite (pending name value st)"
  by (simp add: pending_def)

lemma moved_to_pending:
  assumes "moved_to name value st st'"
  shows "card (pending name value st') \<le> card (pending name value st)"
proof (rule card_mono[OF pending_finite])
  show "pending name value st' \<subseteq> pending name value st"
    using assms by (auto simp: pending_def moved_to_def) metis
qed

lemma store_step:
  assumes d: "map_of (instances st) name = Some d" and w: "w \<in> fst ` set d"
    and st3: "st3 = st\<lparr>instances := dict_set (instances st) name (dict_set d w value),
                      positions := (positions st)((name, w) \<mapsto> value)\<rparr>"
  shows "moved_to name value st st3" and "stored_value st3 name w = Some value"
    and "calls st3 = calls st" and "windows_of st3 name = windows_of st name"
    and "pending name value st3 = pending name value st - {w}"
proof -
  have sv: "stored_value st3 name w' = (if w' = w then Some value else stored_value st name w')"
    for w'
    using d by (simp add: st3 stored_value_def map_of_dict_set)
  show wo: "windows_of st3 name = windows_of st name"
    using d w by (simp add: st3 windows_of_def map_of_dict_set keys_dict_set)
  show "stored_value st3 name w = Some value" by (simp add: sv)
  show "calls st3 = calls st" by (simp add: st3)
  show "moved_to name value st st3"
    unfolding moved_to_def using wo sv by (simp add: st3)
  show "pending name value st3 = pending name value st - {w}"
    unfolding pending_def using wo sv by auto
qed

text \<open>
  The loop of a handler, for any inner handler \<open>h\<close> that returns and adds no callback
  call when it is run for a window that already stores \<open>value\<close>.
\<close>

lemma mirror_post:
  assumes h: "\<And>st w. w \<in> set (windows_of st name) \<Longrightarrow> card (pending name value st) < m \<Longrightarrow>
      stored_value st name w = Some value \<Longrightarrow>
      \<exists>st'. h name w value st = Some (Inr st') \<and> moved_to name value st st' \<and>
         calls st' = calls st"
  shows "set ws \<subseteq> set (windows_of st name) \<Longrightarrow> card (pending name value st) \<le> m \<Longrightarrow>
     \<exists>st'. mirror h fires name w0 value ws st = Some (Inr st') \<and> moved_to name value st st' \<and>
        (\<forall>w \<in> set ws. w \<noteq> w0 \<longrightarrow> stored_value st' name w = Some value) \<and>
        calls st' = calls st"
proof (induction ws arbitrary: st)
  case Nil
  then show ?case by (simp add: moved_to_refl)
next
  case (Cons otherWindow rest)
  from Cons.prems(1) have ow: "otherWindow \<in> set (windows_of st name)"
    and rest: "set rest \<subseteq> set (windows_of st name)" by simp_all
  from ow obtain d previousValue where d: "map_of (instances st) name = Some d"
    "otherWindow \<in> fst ` set d" "map_of d otherWindow = Some previousValue"
    by (rule windows_of_registered)
  have sv: "stored_value st name otherWindow = Some previousValue"
    using d by (simp add: stored_value_def)
  show ?case
  proof (cases "otherWindow \<noteq> w0 \<and> previousValue \<noteq> value")
    case False
    from Cons.IH[OF rest Cons.prems(2)] obtain st' where
      r: "mirror h fires name w0 value rest st = Some (Inr st')" "moved_to name value st st'"
        "\<forall>w \<in> set rest. w \<noteq> w0 \<longrightarrow> stored_value st' name w = Some value"
        "calls st' = calls st" by blast
    have "otherWindow \<noteq> w0 \<longrightarrow> stored_value st' name otherWindow = Some value"
      using False sv moved_to_keeps[OF r(2)] by auto
    with r False d show ?thesis by auto
  next
    case True
    define st3 where "st3 = st\<lparr>instances := dict_set (instances st) name
          (dict_set d otherWindow value),
        positions := (positions st)((name, otherWindow) \<mapsto> value)\<rparr>"
    note s3 = store_step[OF d(1,2) st3_def]
    have inp: "otherWindow \<in> pending name value st"
      using ow sv True by (simp add: pending_def)
    have "card (pending name value st3) < card (pending name value st)"
      unfolding s3(5) using inp pending_finite[of name "value" st]
      by (rule card_Diff1_less[rotated])
    with Cons.prems(2) have c3: "card (pending name value st3) < m" by simp
    have ow3: "otherWindow \<in> set (windows_of st3 name)" using ow s3(4) by simp
    have "\<exists>st4. setTrackbarPos h fires name otherWindow value
           (st\<lparr>instances := dict_set (instances st) name (dict_set d otherWindow value)\<rparr>)
             = Some (Inr st4) \<and> moved_to name value st3 st4 \<and> calls st4 = calls st3"
    proof (cases "fires (positions st (name, otherWindow)) value")
      case True
      from h[OF ow3 c3 s3(2)] show ?thesis
        using True by (simp add: setTrackbarPos_def st3_def)
    next
      case False
      then show ?thesis
        by (simp add: setTrackbarPos_def st3_def moved_to_refl)
    qed
    then obtain st4 where s4: "setTrackbarPos h fires name otherWindow value
           (st\<lparr>instances := dict_set (instances st) name (dict_set d otherWindow value)\<rparr>)
             = Some (Inr st4)" "moved_to name value st3 st4" "calls st4 = calls st3"
      by blast
    have w4: "windows_of st4 name = windows_of st name"
      using s4(2) s3(4) by (simp add: moved_to_def)
    have c4: "card (pending name value st4) \<le> m"
      using moved_to_pending[OF s4(2)] c3 by simp
    from rest w4 have rest4: "set rest \<subseteq> set (windows_of st4 name)" by simp
    from Cons.IH[OF rest4 c4] obtain st' where
      r: "mirror h fires name w0 value rest st4 = Some (Inr st')" "moved_to name value st4 st'"
        "\<forall>w \<in> set rest. w \<noteq> w0 \<longrightarrow> stored_value st' name w = Some value"
        "calls st' = calls st4" by blast
    have m: "moved_to name value st st'"
      using moved_to_trans[OF moved_to_trans[OF s3(1) s4(2)] r(2)] .
    have "stored_value st' name otherWindow = Some value"
      using moved_to_keeps[OF r(2) moved_to_keeps[OF s4(2) s3(2)]] .
    moreover have "mirror h fires name w0 value (otherWindow # rest) st = Some (Inr st')"
      using True d s4(1) r(1) by simp
    ultimately show ?thesis using m r(3,4) s4(3) s3(3) by auto
  qed
qed

lemma fn_post:
  "w0 \<in> set (windows_of st name) \<Longrightarrow> card (pending name value st) < n \<Longrightarrow>
   \<exists>st'. fn n fires name w0 value st = Some (Inr st') \<and> moved_to name value st st' \<and>
      (\<forall>w \<in> set (windows_of st name). w \<noteq> w0 \<longrightarrow> stored_value st' name w = Some value) \<and>
      calls st' = calls st @
        (if stored_value st name w0 = Some value then [] else [(name, w0, value)])"
proof (induction n arbitrary: st w0)
  case 0
  then show ?case by simp
next
  case (Suc m)
  from Suc.prems(1) obtain d cur where d: "map_of (instances st) name = Some d"
    "w0 \<in> fst ` set d" "map_of d w0 = Some cur" "windows_of st name = map fst d"
    by (rule windows_of_registered)
  define st1 where "st1 = (if cur \<noteq> value then st\<lparr>calls := calls st @ [(name, w0, value)]\<rparr>
     else st)"
  have same: "windows_of st1 name = windows_of st name"
    "\<And>w. stored_value st1 name w = stored_value st name w"
    "\<And>w. positions st1 w = positions st w"
    by (simp_all add: st1_def windows_of_def stored_value_def)
  have m1: "moved_to name value st st1" by (simp add: moved_to_def same)
  have p1: "pending name value st1 = pending name value st" by (simp add: pending_def same)
  have h: "\<exists>st'. fn m fires name w value s = Some (Inr st') \<and> moved_to name value s st' \<and>
         calls st' = calls s"
    if "w \<in> set (windows_of s name)" "card (pending name value s) < m"
      "stored_value s name w = Some value" for s w
    using Suc.IH[OF that(1,2)] that(3) by auto
  have ws: "set (map fst d) \<subseteq> set (windows_of st1 name)" using d(4) same(1) by simp
  have c1: "card (pending name value st1) \<le> m" using Suc.prems(2) p1 by simp
  from mirror_post[of name "value" m "fn m fires", OF h ws c1, of fires w0]
  obtain st' where r: "mirror (fn m fires) fires name w0 value (map fst d) st1 = Some (Inr st')"
    "moved_to name value st1 st'"
    "\<forall>w \<in> set (map fst d). w \<noteq> w0 \<longrightarrow> stored_value st' name w = Some value"
    "calls st' = calls st1" by blast
  have f: "fn (Suc m) fires name w0 value st = Some (Inr st')"
    using d r(1) by (simp add: st1_def)
  have c: "calls st1 = calls st @
        (if stored_value st name w0 = Some value then [] else [(name, w0, value)])"
    using d by (simp add: st1_def stored_value_def)
  from f moved_to_trans[OF m1 r(2)] r(3,4) c d(4) show ?case by simp
qed

text \<open>What one change event does, whatever the window library does on setting a position.\<close>

lemma change_event_post:
  assumes "window \<in> set (windows_of st name)"
    and "\<forall>w \<in> set (windows_of st name). w \<noteq> window \<longrightarrow>
           positions st (name, w) = stored_value st name w"
    and "length (windows_of st name) < n"
  shows "\<exists>st'. change_event n fires name window value st = Some (Inr st') \<and>
     (\<forall>w \<in> set (windows_of st name). w \<noteq> window \<longrightarrow>
        stored_value st' name w = Some value \<and> positions st' (name, w) = Some value) \<and>
     calls st' = calls st @
       (if stored_value st name window = Some value then [] else [(name, window, value)]) \<and>
     windows_of st' name = windows_of st name"
proof -
  define st0 where "st0 = st\<lparr>positions := (positions st)((name, window) \<mapsto> value)\<rparr>"
  have same: "windows_of st0 name = windows_of st name"
    "\<And>w. stored_value st0 name w = stored_value st name w" "calls st0 = calls st"
    by (simp_all add: st0_def windows_of_def stored_value_def)
  have p0: "pending name value st0 = pending name value st" by (simp add: pending_def same)
  have "card (pending name value st) \<le> card (set (windows_of st name))"
    by (rule card_mono) (auto simp: pending_def)
  also have "\<dots> \<le> length (windows_of st name)" by (rule card_length)
  finally have c0: "card (pending name value st0) < n" using assms(3) p0 by simp
  have w0: "window \<in> set (windows_of st0 name)" using assms(1) same(1) by simp
  from fn_post[OF w0 c0, of fires]
  obtain st' where r: "fn n fires name window value st0 = Some (Inr st')"
    "moved_to name value st0 st'"
    "\<forall>w \<in> set (windows_of st0 name). w \<noteq> window \<longrightarrow> stored_value st' name w = Some value"
    "calls st' = calls st0 @
        (if stored_value st0 name window = Some value then [] else [(name, window, value)])"
    by blast
  have pos: "positions st' (name, w) = Some value"
    if w: "w \<in> set (windows_of st name)" "w \<noteq> window" for w
  proof -
    from r(3) w same(1) have sv': "stored_value st' name w = Some value" by simp
    from r(2) have "(stored_value st' name w = stored_value st0 name w \<and>
          positions st' (name, w) = positions st0 (name, w)) \<or>
        positions st' (name, w) = Some value"
      by (auto simp: moved_to_def)
    then show ?thesis
    proof
      assume k: "stored_value st' name w = stored_value st0 name w \<and>
          positions st' (name, w) = positions st0 (name, w)"
      with sv' same(2) have "stored_value st name w = Some value" by simp
      with assms(2) w have "positions st (name, w) = Some value" by simp
      with w(2) have "positions st0 (name, w) = Some value" by (simp add: st0_def)
      with k show ?thesis by simp
    qed
  qed
  have "change_event n fires name window value st = Some (Inr st')"
    using r(1) by (simp add: change_event_def st0_def)
  moreover have "windows_of st' name = windows_of st name"
    using r(2) same(1) by (simp add: moved_to_def)
  ultimately show ?thesis using r(3,4) same pos by auto
qed

text \<open>
  The handler never writes the value stored for the window it belongs to. With a single
  window under a name, the stored value stays what \<^verbatim>\<open>createTrackbar\<close> put there.
\<close>

lemma single_window_stale:
  assumes "map_of (instances st) name = Some [(window, c)]"
  shows "\<exists>st'. change_event (Suc n) fires name window value st = Some (Inr st') \<and>
     stored_value st' name window = Some c"
  using assms by (simp add: change_event_def stored_value_def)

text \<open>
  When the window library calls the handler of a trackbar whose position it changes, the
  first other window that is brought up to date calls back and updates the changed
  window too.
\<close>

lemma mirror_bounce:
  assumes h: "\<And>st w. w \<in> set (windows_of st name) \<Longrightarrow> card (pending name value st) < m \<Longrightarrow>
      stored_value st name w = Some value \<Longrightarrow>
      \<exists>st'. h name w value st = Some (Inr st') \<and> moved_to name value st st' \<and>
         calls st' = calls st \<and>
         (\<forall>w' \<in> set (windows_of st name). w' \<noteq> w \<longrightarrow> stored_value st' name w' = Some value)"
  shows "set ws \<subseteq> set (windows_of st name) \<Longrightarrow> card (pending name value st) \<le> m \<Longrightarrow>
     w0 \<in> set (windows_of st name) \<Longrightarrow>
     \<exists>b \<in> set ws. b \<noteq> w0 \<and> stored_value st name b \<noteq> Some value \<Longrightarrow>
     \<forall>x \<in> set ws. x \<noteq> w0 \<and> stored_value st name x \<noteq> Some value \<longrightarrow>
        positions st (name, x) \<noteq> Some value \<Longrightarrow>
     \<exists>st'. mirror h (\<lambda>old new. old \<noteq> Some new) name w0 value ws st = Some (Inr st') \<and>
        stored_value st' name w0 = Some value"
proof (induction ws arbitrary: st)
  case Nil
  then show ?case by simp
next
  case (Cons x rest)
  let ?fires = "\<lambda>old new::int. old \<noteq> Some new"
  have h': "\<exists>st'. h name w value s = Some (Inr st') \<and> moved_to name value s st' \<and>
         calls st' = calls s"
    if "w \<in> set (windows_of s name)" "card (pending name value s) < m"
      "stored_value s name w = Some value" for s w
    using h[OF that] by blast
  from Cons.prems(1) have xw: "x \<in> set (windows_of st name)"
    and rest: "set rest \<subseteq> set (windows_of st name)" by simp_all
  from xw obtain d previousValue where d: "map_of (instances st) name = Some d"
    "x \<in> fst ` set d" "map_of d x = Some previousValue"
    by (rule windows_of_registered)
  have sv: "stored_value st name x = Some previousValue"
    using d by (simp add: stored_value_def)
  show ?case
  proof (cases "x \<noteq> w0 \<and> previousValue \<noteq> value")
    case False
    with sv Cons.prems(4) have b: "\<exists>b \<in> set rest. b \<noteq> w0 \<and> stored_value st name b \<noteq> Some value"
      by auto
    from Cons.prems(5) have p: "\<forall>x \<in> set rest. x \<noteq> w0 \<and> stored_value st name x \<noteq> Some value \<longrightarrow>
        positions st (name, x) \<noteq> Some value" by simp
    from Cons.IH[OF rest Cons.prems(2,3) b p] False d show ?thesis by auto
  next
    case True
    define st3 where "st3 = st\<lparr>instances := dict_set (instances st) name (dict_set d x value),
        positions := (positions st)((name, x) \<mapsto> value)\<rparr>"
    note s3 = store_step[OF d(1,2) st3_def]
    have inp: "x \<in> pending name value st"
      using xw sv True by (simp add: pending_def)
    have "card (pending name value st3) < card (pending name value st)"
      unfolding s3(5) using inp pending_finite[of name "value" st]
      by (rule card_Diff1_less[rotated])
    with Cons.prems(2) have c3: "card (pending name value st3) < m" by simp
    have x3: "x \<in> set (windows_of st3 name)" using xw s3(4) by simp
    have fires: "positions st (name, x) \<noteq> Some value"
      using Cons.prems(5) True sv by simp
    from h[OF x3 c3 s3(2)] obtain st4 where s4: "h name x value st3 = Some (Inr st4)"
      "moved_to name value st3 st4" "calls st4 = calls st3"
      "\<forall>w' \<in> set (windows_of st3 name). w' \<noteq> x \<longrightarrow> stored_value st4 name w' = Some value"
      by blast
    have set4: "setTrackbarPos h ?fires name x value
           (st\<lparr>instances := dict_set (instances st) name (dict_set d x value)\<rparr>)
             = Some (Inr st4)"
      using fires s4(1) by (simp add: setTrackbarPos_def st3_def)
    from s4(4) Cons.prems(3) s3(4) True have v4: "stored_value st4 name w0 = Some value" by auto
    have w4: "windows_of st4 name = windows_of st name"
      using s4(2) s3(4) by (simp add: moved_to_def)
    have c4: "card (pending name value st4) \<le> m"
      using moved_to_pending[OF s4(2)] c3 by simp
    from rest w4 have rest4: "set rest \<subseteq> set (windows_of st4 name)" by simp
    from mirror_post[of name "value" m h, OF h' rest4 c4, of ?fires w0]
    obtain st' where r: "mirror h ?fires name w0 value rest st4 = Some (Inr st')"
      "moved_to name value st4 st'" by blast
    have "mirror h ?fires name w0 value (x # rest) st = Some (Inr st')"
      using True d set4 r(1) by simp
    with moved_to_keeps[OF r(2) v4] show ?thesis by simp
  qed
qed

text \<open>
  With such a window library and at least two windows under a name, the state in which
  all windows store and show one value is kept by every change event, so the
  precondition of the claim below holds again after each event.
\<close>

lemma mirrored_invariant:
  assumes win: "window \<in> set (windows_of st name)"
    and other: "\<exists>b \<in> set (windows_of st name). b \<noteq> window"
    and same: "\<forall>w \<in> set (windows_of st name).
           stored_value st name w = Some c \<and> positions st (name, w) = Some c"
    and fuel: "length (windows_of st name) < n"
  shows "\<exists>st'. change_event n (\<lambda>old new. old \<noteq> Some new) name window value st = Some (Inr st') \<and>
     windows_of st' name = windows_of st name \<and>
     (\<forall>w \<in> set (windows_of st' name).
        stored_value st' name w = Some value \<and> positions st' (name, w) = Some value) \<and>
     calls st' = calls st @ (if value = c then [] else [(name, window, value)])"
proof -
  let ?fires = "\<lambda>old new::int. old \<noteq> Some new"
  have shown: "\<forall>w \<in> set (windows_of st name). w \<noteq> window \<longrightarrow>
           positions st (name, w) = stored_value st name w"
    using same by simp
  from change_event_post[OF win shown fuel, of ?fires "value"]
  obtain st' where r: "change_event n ?fires name window value st = Some (Inr st')"
    "\<forall>w \<in> set (windows_of st name). w \<noteq> window \<longrightarrow>
        stored_value st' name w = Some value \<and> positions st' (name, w) = Some value"
    "calls st' = calls st @
       (if stored_value st name window = Some value then [] else [(name, window, value)])"
    "windows_of st' name = windows_of st name" by blast
  define st0 where "st0 = st\<lparr>positions := (positions st)((name, window) \<mapsto> value)\<rparr>"
  have same0: "windows_of st0 name = windows_of st name"
    "\<And>w. stored_value st0 name w = stored_value st name w"
    by (simp_all add: st0_def windows_of_def stored_value_def)
  have p0: "pending name value st0 = pending name value st" by (simp add: pending_def same0)
  have "card (pending name value st) \<le> card (set (windows_of st name))"
    by (rule card_mono) (auto simp: pending_def)
  also have "\<dots> \<le> length (windows_of st name)" by (rule card_length)
  finally have c0: "card (pending name value st0) < n" using fuel p0 by simp
  have w0: "window \<in> set (windows_of st0 name)" using win same0(1) by simp
  have ev: "change_event n ?fires name window value st = fn n ?fires name window value st0"
    by (simp add: change_event_def st0_def)
  from fn_post[OF w0 c0, of ?fires] ev r(1)
  have mv: "moved_to name value st0 st'" by auto
  have pw: "positions st' (name, window) = Some value"
  proof -
    from mv have "(stored_value st' name window = stored_value st0 name window \<and>
          positions st' (name, window) = positions st0 (name, window)) \<or>
        (stored_value st' name window = Some value \<and>
          positions st' (name, window) = Some value)"
      by (simp add: moved_to_def)
    then show ?thesis by (auto simp: st0_def)
  qed
  have sw: "stored_value st' name window = Some value"
  proof (cases "c = value")
    case True
    with same win same0(2) have "stored_value st0 name window = Some value" by simp
    from moved_to_keeps[OF mv this] show ?thesis .
  next
    case False
    from fuel obtain m where n: "n = Suc m" by (cases n) simp_all
    from w0 obtain d cur where d: "map_of (instances st0) name = Some d"
      "window \<in> fst ` set d" "map_of d window = Some cur" "windows_of st0 name = map fst d"
      by (rule windows_of_registered)
    define st1 where "st1 = (if cur \<noteq> value
       then st0\<lparr>calls := calls st0 @ [(name, window, value)]\<rparr> else st0)"
    have same1: "windows_of st1 name = windows_of st name"
      "\<And>w. stored_value st1 name w = stored_value st name w"
      "\<And>w. positions st1 w = positions st0 w"
      by (simp_all add: st1_def windows_of_def stored_value_def same0 st0_def)
    have p1: "pending name value st1 = pending name value st" by (simp add: pending_def same1)
    have h: "\<exists>st'. fn m ?fires name w value s = Some (Inr st') \<and> moved_to name value s st' \<and>
         calls st' = calls s \<and>
         (\<forall>w' \<in> set (windows_of s name). w' \<noteq> w \<longrightarrow> stored_value st' name w' = Some value)"
      if "w \<in> set (windows_of s name)" "card (pending name value s) < m"
        "stored_value s name w = Some value" for s w
      using fn_post[OF that(1,2), of ?fires] that(3) by auto
    have ws: "set (map fst d) \<subseteq> set (windows_of st1 name)" using d(4) same0(1) same1(1) by simp
    have c1: "card (pending name value st1) \<le> m" using c0 p0 p1 n by simp
    have w1: "window \<in> set (windows_of st1 name)" using win same1(1) by simp
    have b1: "\<exists>b \<in> set (map fst d). b \<noteq> window \<and> stored_value st1 name b \<noteq> Some value"
      using other same False d(4) same0(1) same1(2) by auto
    have x1: "\<forall>x \<in> set (map fst d). x \<noteq> window \<and> stored_value st1 name x \<noteq> Some value \<longrightarrow>
        positions st1 (name, x) \<noteq> Some value"
      using same False d(4) same0(1) by (auto simp: same1(3) st0_def)
    from mirror_bounce[of name "value" m "fn m ?fires", OF h ws c1 w1 b1 x1]
    obtain st'' where b: "mirror (fn m ?fires) ?fires name window value (map fst d) st1
        = Some (Inr st'')" "stored_value st'' name window = Some value" by blast
    have "fn n ?fires name window value st0 = Some (Inr st'')"
      using d b(1) by (simp add: n st1_def)
    with ev r(1) b(2) show ?thesis by simp
  qed
  have "\<forall>w \<in> set (windows_of st' name).
        stored_value st' name w = Some value \<and> positions st' (name, w) = Some value"
    using r(2,4) sw pw by auto
  moreover have "stored_value st name window = Some value \<longleftrightarrow> value = c"
    using same win by auto
  ultimately show ?thesis using r(1,3,4) by auto
qed

text \<open>
  Claim C8. Take a trackbar name with its registered windows, each of the other windows
  showing the value stored for it, and a change event that moves the trackbar of one
  window to a new value. Whether or not the window library calls handlers when a
  position is set, the handler returns (handlers call handlers to a depth of at most the
  number of windows), and afterwards every other window of that name stores the new
  value and shows it, the user callback was called once if the new value differs from
  the value stored for the changed window and not at all otherwise, and the windows
  registered are the same.
\<close>

theorem trackbars_mirrored:
  assumes "window \<in> set (windows_of st name)"
    and "\<forall>w \<in> set (windows_of st name). w \<noteq> window \<longrightarrow>
           positions st (name, w) = stored_value st name w"
    and "length (windows_of st name) < n"
  shows "\<exists>st'. change_event n fires name window value st = Some (Inr st') \<and>
     (\<forall>w \<in> set (windows_of st name). w \<noteq> window \<longrightarrow>
        stored_value st' name w = Some value \<and> positions st' (name, w) = Some value) \<and>
     calls st' = calls st @
       (if stored_value st name window = Some value then [] else [(name, window, value)]) \<and>
     windows_of st' name = windows_of st name"
  using assms by (rule change_event_post)

theorem trackbars_mirrored_witness:
  "createTrackbar 2 (\<lambda>old new. old \<noteq> Some new) ''Bilateral sigma'' ''depth'' 0 250 7
      \<lparr>instances = [], positions = (\<lambda>_. None), calls = []\<rparr>
     = Some (Inr \<lparr>instances = [(''Bilateral sigma'', [(''depth'', 7)])],
          positions = (\<lambda>_. None)((''Bilateral sigma'', ''depth'') \<mapsto> 7), calls = []\<rparr>) \<and>
   createTrackbar 2 (\<lambda>old new. old \<noteq> Some new) ''Bilateral sigma'' ''depthRaw'' 0 250 7
      \<lparr>instances = [(''Bilateral sigma'', [(''depth'', 7)])],
       positions = (\<lambda>_. None)((''Bilateral sigma'', ''depth'') \<mapsto> 7), calls = []\<rparr>
     = Some (Inr \<lparr>instances = [(''Bilateral sigma'', [(''depth'', 7), (''depthRaw'', 7)])],
          positions = (\<lambda>_. None)((''Bilateral sigma'', ''depth'') \<mapsto> 7,
             (''Bilateral sigma'', ''depthRaw'') \<mapsto> 7), calls = []\<rparr>) \<and>
   (\<exists>st'. change_event 3 (\<lambda>old new. old \<noteq> Some new) ''Bilateral sigma'' ''depth'' 50
        \<lparr>instances = [(''Bilateral sigma'', [(''depth'', 7), (''depthRaw'', 7)])],
          positions = (\<lambda>_. None)((''Bilateral sigma'', ''depth'') \<mapsto> 7,
             (''Bilateral sigma'', ''depthRaw'') \<mapsto> 7), calls = []\<rparr> = Some (Inr st') \<and>
      stored_value st' ''Bilateral sigma'' ''depthRaw'' = Some 50 \<and>
      positions st' (''Bilateral sigma'', ''depthRaw'') = Some 50 \<and>
      calls st' = [(''Bilateral sigma'', ''depth'', 50)])"
proof -
  let ?fires = "\<lambda>old new::int. old \<noteq> Some new"
  let ?st2 = "\<lparr>instances = [(''Bilateral sigma'', [(''depth'', 7), (''depthRaw'', 7)])],
          positions = (\<lambda>_. None)((''Bilateral sigma'', ''depth'') \<mapsto> 7,
             (''Bilateral sigma'', ''depthRaw'') \<mapsto> 7), calls = []\<rparr>"
  have w: "windows_of ?st2 ''Bilateral sigma'' = [''depth'', ''depthRaw'']"
    by (simp add: windows_of_def)
  have sv: "stored_value ?st2 ''Bilateral sigma'' ''depthRaw'' = Some 7"
    "stored_value ?st2 ''Bilateral sigma'' ''depth'' = Some 7"
    by (simp_all add: stored_value_def)
  have h1: "''depth'' \<in> set (windows_of ?st2 ''Bilateral sigma'')" by (simp add: w)
  have h2: "\<forall>w \<in> set (windows_of ?st2 ''Bilateral sigma''). w \<noteq> ''depth'' \<longrightarrow>
           positions ?st2 (''Bilateral sigma'', w) = stored_value ?st2 ''Bilateral sigma'' w"
    by (simp add: w sv)
  have h3: "length (windows_of ?st2 ''Bilateral sigma'') < 3" by (simp add: w)
  from trackbars_mirrored[OF h1 h2 h3, of ?fires 50]
  have ev: "\<exists>st'. change_event 3 ?fires ''Bilateral sigma'' ''depth'' 50 ?st2 = Some (Inr st') \<and>
      stored_value st' ''Bilateral sigma'' ''depthRaw'' = Some 50 \<and>
      positions st' (''Bilateral sigma'', ''depthRaw'') = Some 50 \<and>
      calls st' = [(''Bilateral sigma'', ''depth'', 50)]"
    by (auto simp: w sv)
  have c1: "createTrackbar 2 ?fires ''Bilateral sigma'' ''depth'' 0 250 7
      \<lparr>instances = [], positions = (\<lambda>_. None), calls = []\<rparr>
     = Some (Inr \<lparr>instances = [(''Bilateral sigma'', [(''depth'', 7)])],
          positions = (\<lambda>_. None)((''Bilateral sigma'', ''depth'') \<mapsto> 7), calls = []\<rparr>)"
    by (simp add: createTrackbar_def setTrackbarPos_def numeral_2_eq_2)
  have c2: "createTrackbar 2 ?fires ''Bilateral sigma'' ''depthRaw'' 0 250 7
      \<lparr>instances = [(''Bilateral sigma'', [(''depth'', 7)])],
       positions = (\<lambda>_. None)((''Bilateral sigma'', ''depth'') \<mapsto> 7), calls = []\<rparr>
     = Some (Inr ?st2)"
    by (simp add: createTrackbar_def setTrackbarPos_def numeral_2_eq_2)
  from c1 c2 ev show ?thesis by (intro conjI)
qed

end
